theory Spec2Isabelle
  imports Complex_Main
begin

section \<open>Characters and strings\<close>

text \<open>
  A Python \<open>str\<close> is a sequence of code points. The development models the code points
  U+0000 .. U+00FF: a \<^typ>\<open>char\<close> stands for the code point with the same number, and a
  \<^typ>\<open>string\<close> for a \<open>str\<close> over that range. The classification of these code points
  (\<open>str.isspace\<close>, the regex classes \<open>\s\<close> and \<open>\w\<close>, \<open>str.isupper\<close>, \<open>str.islower\<close>,
  \<open>str.lower\<close>) is the one of the Unicode database for that range.
\<close>

definition code :: "char \<Rightarrow> nat" where
  "code c = of_char c"

definition between :: "nat \<Rightarrow> nat \<Rightarrow> nat \<Rightarrow> bool" where
  "between lo hi n = (lo \<le> n \<and> n \<le> hi)"

definition is_space :: "char \<Rightarrow> bool" where
  "is_space c = (between 9 13 (code c) \<or> between 28 32 (code c) \<or> code c = 133 \<or> code c = 160)"

definition char_isupper :: "char \<Rightarrow> bool" where
  "char_isupper c = (between 65 90 (code c) \<or> between 192 214 (code c) \<or> between 216 222 (code c))"

definition char_islower :: "char \<Rightarrow> bool" where
  "char_islower c = (between 97 122 (code c) \<or> code c = 170 \<or> code c = 181 \<or> code c = 186
     \<or> between 223 246 (code c) \<or> between 248 255 (code c))"

definition is_word :: "char \<Rightarrow> bool" where
  "is_word c = (between 48 57 (code c) \<or> char_isupper c \<or> code c = 95 \<or> char_islower c
     \<or> between 178 179 (code c) \<or> code c = 185 \<or> between 188 190 (code c))"

definition char_lower :: "char \<Rightarrow> char" where
  "char_lower c = (if char_isupper c then char_of (code c + 32) else c)"

text \<open>\<open>str.isupper\<close>: no lowercase character and at least one uppercase character
  (the range has no titlecase characters); \<open>str.islower\<close> likewise.\<close>

definition py_isupper :: "string \<Rightarrow> bool" where
  "py_isupper s = (\<not> list_ex char_islower s \<and> list_ex char_isupper s)"

definition py_islower :: "string \<Rightarrow> bool" where
  "py_islower s = (\<not> list_ex char_isupper s \<and> list_ex char_islower s)"

text \<open>\<open>str.strip()\<close> removes leading and trailing whitespace.\<close>

definition py_strip :: "string \<Rightarrow> string" where
  "py_strip s = rev (dropWhile is_space (rev (dropWhile is_space s)))"

section \<open>Exceptions\<close>

text \<open>
  \<open>HTTPException status_code detail\<close> is FastAPI's exception; \<open>CapabilityError\<close> stands for
  whatever the external transcription call raises.
\<close>

datatype exn =
    HTTPException nat string
  | IndexError
  | AttributeError
  | CapabilityError string

section \<open>The regular expressions of the normalizer\<close>

text \<open>
  The five patterns are built from three constructs: the word boundary \<open>\b\<close>, a literal
  character (matched under \<open>re.IGNORECASE\<close>) and \<open>\s+\<close>. \<open>rmatch pat prev s\<close> is the
  backtracking matcher anchored at the current position: \<open>prev\<close> is the character before
  the position (\<open>None\<close> at the start of the text), \<open>s\<close> the text from the position on,
  and the result the length of the match. \<open>\s+\<close> is greedy: it first tries to take one
  more whitespace character and gives it back when the rest of the pattern fails.
\<close>

datatype rx = WordB | Lit char | Spaces1

definition ci_eq :: "char \<Rightarrow> char \<Rightarrow> bool" where
  "ci_eq p x = (char_lower x = char_lower p)"

definition prev_word :: "char option \<Rightarrow> bool" where
  "prev_word prev = (case prev of None \<Rightarrow> False | Some c \<Rightarrow> is_word c)"

definition next_word :: "string \<Rightarrow> bool" where
  "next_word s = (case s of [] \<Rightarrow> False | c # _ \<Rightarrow> is_word c)"

definition at_boundary :: "char option \<Rightarrow> string \<Rightarrow> bool" where
  "at_boundary prev s = (prev_word prev \<noteq> next_word s)"

fun rmatch :: "rx list \<Rightarrow> char option \<Rightarrow> string \<Rightarrow> nat option" where
  "rmatch [] prev s = Some 0"
| "rmatch (WordB # rs) prev s = (if at_boundary prev s then rmatch rs prev s else None)"
| "rmatch (Lit c # rs) prev [] = None"
| "rmatch (Lit c # rs) prev (x # xs) =
     (if ci_eq c x then map_option Suc (rmatch rs (Some x) xs) else None)"
| "rmatch (Spaces1 # rs) prev [] = None"
| "rmatch (Spaces1 # rs) prev (x # xs) =
     (if is_space x then
        (case rmatch (Spaces1 # rs) (Some x) xs of
           Some n \<Rightarrow> Some (Suc n)
         | None \<Rightarrow> map_option Suc (rmatch rs (Some x) xs))
      else None)"

text \<open>
  \<open>re.sub(pattern, repl, text)\<close>: scan left to right; at a match, emit the replacement of
  the matched token and continue after it; otherwise copy one character. The replacement
  is a callback on the matched token (a constant replacement string is the constant
  callback) and may raise. None of the five patterns matches the empty string, so the
  scan has no case for an empty match.
\<close>

fun sub_from :: "rx list \<Rightarrow> (string \<Rightarrow> exn + string) \<Rightarrow> char option \<Rightarrow> string \<Rightarrow> exn + string" where
  "sub_from pat repl prev [] = Inr []"
| "sub_from pat repl prev (x # xs) =
     (case rmatch pat prev (x # xs) of
        Some (Suc n) \<Rightarrow>
          (case repl (x # take n xs) of
             Inl e \<Rightarrow> Inl e
           | Inr r \<Rightarrow>
               (case sub_from pat repl (Some (last (x # take n xs))) (drop n xs) of
                  Inl e \<Rightarrow> Inl e
                | Inr rest \<Rightarrow> Inr (r @ rest)))
      | _ \<Rightarrow>
          (case sub_from pat repl (Some x) xs of
             Inl e \<Rightarrow> Inl e
           | Inr rest \<Rightarrow> Inr (x # rest)))"

definition re_sub :: "rx list \<Rightarrow> (string \<Rightarrow> exn + string) \<Rightarrow> string \<Rightarrow> exn + string" where
  "re_sub pat repl text = sub_from pat repl None text"

definition const_repl :: "string \<Rightarrow> string \<Rightarrow> exn + string" where
  "const_repl r token = Inr r"

section \<open>HotWhisperService._normalize_terms\<close>

definition case_aware_cli :: "string \<Rightarrow> exn + string" where
  "case_aware_cli token =
     (if py_isupper token then Inr ''CLI''
      else if py_islower token then Inr ''cli''
      else (case token of
              [] \<Rightarrow> Inl IndexError
            | c # cs \<Rightarrow> if py_isupper [c] \<and> py_islower cs then Inr ''Cli'' else Inr ''CLI''))"

definition pat_subsideragent :: "rx list" where
  "pat_subsideragent = WordB # map Lit ''SubsiderAgent'' @ [WordB]"

definition pat_subsider_agent :: "rx list" where
  "pat_subsider_agent = WordB # map Lit ''Subsider'' @ Spaces1 # map Lit ''Agent'' @ [WordB]"

definition pat_cla :: "rx list" where
  "pat_cla = WordB # map Lit ''CLA'' @ [WordB]"

definition pat_fallback :: "rx list" where
  "pat_fallback = WordB # map Lit ''Fallback'' @ [WordB]"

definition pat_open_claw :: "rx list" where
  "pat_open_claw = WordB # map Lit ''Open'' @ Spaces1 # map Lit ''claw'' @ [WordB]"

definition bind :: "exn + 'a \<Rightarrow> ('a \<Rightarrow> exn + 'b) \<Rightarrow> exn + 'b" where
  "bind m f = (case m of Inl e \<Rightarrow> Inl e | Inr v \<Rightarrow> f v)"

definition normalize_terms :: "string \<Rightarrow> exn + string" where
  "normalize_terms text =
     bind (re_sub pat_subsideragent (const_repl ''subagent'') text) (\<lambda>out.
     bind (re_sub pat_subsider_agent (const_repl ''subagent'') out) (\<lambda>out.
     bind (re_sub pat_cla case_aware_cli out) (\<lambda>out.
     bind (re_sub pat_fallback (const_repl ''fallback'') out) (\<lambda>out.
     re_sub pat_open_claw (const_repl ''OpenClaw'') out))))"

section \<open>Python values\<close>

text \<open>
  The values that occur in the capability's result dictionary and in the JSON responses.
  Segments are opaque to the service, so their type is a parameter.
\<close>

datatype 'seg pyval =
    PyNone
  | PyBool bool
  | PyNum real
  | PyStr string
  | PyList "'seg list"

type_synonym 'seg pydict = "string \<rightharpoonup> 'seg pyval"

fun truthy :: "'seg pyval \<Rightarrow> bool" where
  "truthy PyNone = False"
| "truthy (PyBool b) = b"
| "truthy (PyNum x) = (x \<noteq> 0)"
| "truthy (PyStr s) = (s \<noteq> [])"
| "truthy (PyList xs) = (xs \<noteq> [])"

text \<open>\<open>d.get(k)\<close>, \<open>d.get(k, default)\<close>, \<open>a or b\<close> and \<open>v.strip()\<close>.\<close>

definition dict_get :: "'seg pydict \<Rightarrow> string \<Rightarrow> 'seg pyval" where
  "dict_get d k = (case d k of None \<Rightarrow> PyNone | Some v \<Rightarrow> v)"

definition dict_get_default :: "'seg pydict \<Rightarrow> string \<Rightarrow> 'seg pyval \<Rightarrow> 'seg pyval" where
  "dict_get_default d k dflt = (case d k of None \<Rightarrow> dflt | Some v \<Rightarrow> v)"

definition py_or :: "'seg pyval \<Rightarrow> 'seg pyval \<Rightarrow> 'seg pyval" where
  "py_or a b = (if truthy a then a else b)"

definition value_strip :: "'seg pyval \<Rightarrow> exn + string" where
  "value_strip v = (case v of PyStr s \<Rightarrow> Inr (py_strip s) | _ \<Rightarrow> Inl AttributeError)"

text \<open>
  \<open>int(x)\<close> truncates towards zero; \<open>round(x, ndigits)\<close> rounds to the nearest multiple of
  \<open>10 ^ -ndigits\<close>, ties to even. Clock readings and durations are reals here: the
  rounding error of the float operations is not modelled.
\<close>

definition py_int :: "real \<Rightarrow> int" where
  "py_int x = (if 0 \<le> x then \<lfloor>x\<rfloor> else \<lceil>x\<rceil>)"

definition round_half_even :: "real \<Rightarrow> int" where
  "round_half_even y =
     (let f = \<lfloor>y\<rfloor>; d = y - of_int f
      in if d < 1 / 2 then f else if 1 / 2 < d then f + 1 else if even f then f else f + 1)"

definition py_round :: "real \<Rightarrow> nat \<Rightarrow> real" where
  "py_round x ndigits = of_int (round_half_even (x * 10 ^ ndigits)) / 10 ^ ndigits"

section \<open>The service\<close>

text \<open>
  The module-level constants read from the environment, and the library functions whose
  behaviour lies outside the repository: the name \<open>tempfile\<close> picks for a new file with
  a given suffix, the file image the \<open>wave\<close> module writes for given parameters and
  frames, and \<open>pathlib.Path(name).suffix\<close>.
\<close>

record config =
  DEFAULT_MODEL :: string
  WARMUP_SECONDS :: real
  INITIAL_PROMPT :: string

type_synonym bytes = "char list"
type_synonym files = "string \<rightharpoonup> bytes"

record env =
  mkstemp :: "files \<Rightarrow> string \<Rightarrow> string"
  wave_file :: "nat \<Rightarrow> nat \<Rightarrow> nat \<Rightarrow> bytes \<Rightarrow> bytes"
  path_suffix :: "string \<Rightarrow> string"

definition app_title :: string where
  "app_title = ''mlx-whisper-hot-service''"

record service =
  model :: string
  warmed :: bool
  startup_ts :: real

text \<open>
  The arguments of one call of the external \<open>mlx_whisper.transcribe\<close>. The capability is a
  parameter: given the files on disk and the arguments it returns a result dictionary or
  raises, and may change the files.
\<close>

record cap_call =
  audio_path :: string
  path_or_hf_repo :: string
  language :: "string option"
  word_timestamps :: bool
  initial_prompt :: string

type_synonym 'seg capability = "files \<Rightarrow> cap_call \<Rightarrow> (exn + 'seg pydict) \<times> files"

text \<open>
  The state of the process: the module-level \<open>service\<close> instance, the files on disk, and
  the calls made to the capability so far.
\<close>

record world =
  svc :: service
  files :: files
  calls :: "cap_call list"

definition service_init :: "string \<Rightarrow> real \<Rightarrow> service" where
  "service_init m now = \<lparr>model = m, warmed = False, startup_ts = now\<rparr>"

definition language_arg :: "string option \<Rightarrow> exn + string option" where
  "language_arg lang =
     (if lang \<in> {None, Some [], Some ''auto''} then Inr None
      else if lang \<notin> {Some ''zh'', Some ''en''}
      then Inl (HTTPException 400 ''language must be one of: auto|zh|en'')
      else Inr lang)"

text \<open>\<open>HotWhisperService._transcribe\<close>: the language is validated while the arguments of the
  call are evaluated, so an invalid language raises before the capability is called.\<close>

definition svc_transcribe ::
  "config \<Rightarrow> 'seg capability \<Rightarrow> string \<Rightarrow> string option \<Rightarrow> world \<Rightarrow> (exn + 'seg pydict) \<times> world" where
  "svc_transcribe cfg cap path lang w =
     (case language_arg lang of
        Inl e \<Rightarrow> (Inl e, w)
      | Inr l \<Rightarrow>
          (let call = \<lparr>audio_path = path, path_or_hf_repo = model (svc w), language = l,
                        word_timestamps = False, initial_prompt = INITIAL_PROMPT cfg\<rparr>;
               (r, fs) = cap (files w) call
           in (r, w\<lparr>files := fs, calls := calls w @ [call]\<rparr>)))"

definition unlink_missing_ok :: "string \<Rightarrow> world \<Rightarrow> world" where
  "unlink_missing_ok path w = w\<lparr>files := (files w)(path := None)\<rparr>"

definition write_file :: "string \<Rightarrow> bytes \<Rightarrow> world \<Rightarrow> world" where
  "write_file path content w = w\<lparr>files := (files w)(path \<mapsto> content)\<rparr>"

text \<open>
  \<open>HotWhisperService.warmup\<close>. The \<open>try ... finally\<close> has no \<open>except\<close> clause: when the
  transcription raises, the file is unlinked and the exception leaves \<open>warmup\<close>.
\<close>

definition warmup :: "env \<Rightarrow> config \<Rightarrow> 'seg capability \<Rightarrow> world \<Rightarrow> (exn + unit) \<times> world" where
  "warmup ev cfg cap w =
     (let warmup_path = mkstemp ev (files w) ''.wav'';
          w1 = write_file warmup_path [] w;
          sample_rate = 16000;
          frames = py_int (real sample_rate * WARMUP_SECONDS cfg);
          w2 = write_file warmup_path
                 (wave_file ev 1 2 sample_rate (concat (replicate (nat frames) [CHR 0x00, CHR 0x00]))) w1;
          (r, w3) = svc_transcribe cfg cap warmup_path (Some ''auto'') w2
      in case r of
           Inl e \<Rightarrow> (Inl e, unlink_missing_ok warmup_path w3)
         | Inr _ \<Rightarrow>
             (Inr (), unlink_missing_ok warmup_path (w3\<lparr>svc := (svc w3)\<lparr>warmed := True\<rparr>\<rparr>)))"

text \<open>The startup handler awaits \<open>warmup\<close> on a worker thread and does nothing else.\<close>

definition startup_event :: "env \<Rightarrow> config \<Rightarrow> 'seg capability \<Rightarrow> world \<Rightarrow> (exn + unit) \<times> world" where
  "startup_event ev cfg cap w = warmup ev cfg cap w"

definition health :: "real \<Rightarrow> world \<Rightarrow> 'seg pydict" where
  "health now w = map_of
     [(''ok'', PyBool True),
      (''service'', PyStr app_title),
      (''model'', PyStr (model (svc w))),
      (''warmed'', PyBool (warmed (svc w))),
      (''uptime_sec'', PyNum (py_round (now - startup_ts (svc w)) 3))]"

text \<open>
  The \<open>/transcribe\<close> handler. \<open>filename\<close> and \<open>content\<close> are the upload, \<open>lang\<close> the form
  field, \<open>t0\<close> and \<open>t1\<close> the two readings of \<open>time.perf_counter()\<close>. \<open>transcribe_body\<close> is
  the body of the \<open>try\<close>; \<open>transcribe\<close> creates the file before it and unlinks it in the
  \<open>finally\<close>.
\<close>

definition transcribe_body ::
  "config \<Rightarrow> 'seg capability \<Rightarrow> string \<Rightarrow> string \<Rightarrow> real \<Rightarrow> real \<Rightarrow> world
     \<Rightarrow> (exn + 'seg pydict) \<times> world" where
  "transcribe_body cfg cap tmp_path lang t0 t1 w =
     (let started = t0;
          (r, w1) = svc_transcribe cfg cap tmp_path (Some lang) w
      in case r of
           Inl e \<Rightarrow> (Inl e, w1)
         | Inr result \<Rightarrow>
             (let elapsed_ms = py_round ((t1 - started) * 1000) 2
              in case bind (value_strip (py_or (dict_get result ''text'') (PyStr []))) normalize_terms of
                   Inl e \<Rightarrow> (Inl e, w1)
                 | Inr text \<Rightarrow>
                     (let detected_lang = dict_get result ''language''
                      in (Inr (map_of
                            [(''text'', PyStr text),
                             (''language'', detected_lang),
                             (''requested_language'', PyStr lang),
                             (''elapsed_ms'', PyNum elapsed_ms),
                             (''segments'', dict_get_default result ''segments'' (PyList [])),
                             (''model'', PyStr (model (svc w1)))]), w1))))"

definition tmp_suffix :: "env \<Rightarrow> string option \<Rightarrow> string" where
  "tmp_suffix ev filename =
     (let name = (case filename of None \<Rightarrow> ''upload.wav'' | Some n \<Rightarrow> if n = [] then ''upload.wav'' else n);
          sfx = path_suffix ev name
      in if sfx = [] then ''.wav'' else sfx)"

definition transcribe ::
  "env \<Rightarrow> config \<Rightarrow> 'seg capability \<Rightarrow> string option \<Rightarrow> bytes \<Rightarrow> string \<Rightarrow> real \<Rightarrow> real \<Rightarrow> world
     \<Rightarrow> (exn + 'seg pydict) \<times> world" where
  "transcribe ev cfg cap filename content lang t0 t1 w =
     (let suffix = tmp_suffix ev filename;
          tmp_path = mkstemp ev (files w) suffix;
          w1 = write_file tmp_path content w;
          (r, w2) = transcribe_body cfg cap tmp_path lang t0 t1 w1
      in (r, unlink_missing_ok tmp_path w2))"

text \<open>
  The process: the server calls the startup handler and the two endpoints on the one
  module-level \<open>service\<close> instance, in any order and any number of times. A run keeps
  the state a handler leaves behind also when the handler raised.
\<close>

datatype request =
    Startup
  | GetHealth real
  | PostTranscribe "string option" bytes string real real

definition handle :: "env \<Rightarrow> config \<Rightarrow> 'seg capability \<Rightarrow> request \<Rightarrow> world \<Rightarrow> world" where
  "handle ev cfg cap req w =
     (case req of
        Startup \<Rightarrow> snd (startup_event ev cfg cap w)
      | GetHealth now \<Rightarrow> w
      | PostTranscribe filename content lang t0 t1 \<Rightarrow>
          snd (transcribe ev cfg cap filename content lang t0 t1 w))"

fun run :: "env \<Rightarrow> config \<Rightarrow> 'seg capability \<Rightarrow> request list \<Rightarrow> world \<Rightarrow> world list" where
  "run ev cfg cap [] w = [w]"
| "run ev cfg cap (req # reqs) w = w # run ev cfg cap reqs (handle ev cfg cap req w)"

text \<open>The number of changes of the warmed flag along a run.\<close>

fun flips :: "bool list \<Rightarrow> nat" where
  "flips (a # b # bs) = (if a \<noteq> b then 1 else 0) + flips (b # bs)"
| "flips bs = 0"

section \<open>Words and separators\<close>

text \<open>
  The definitions below serve the proofs about the normalizer. A text is a leading run of
  non-word characters followed by blocks; a block is a maximal run of word characters (a
  word) and the run of non-word characters after it (a separator, empty only at the end
  of the text). \<open>ci_eqs W w\<close>: the word \<open>w\<close> is the word \<open>W\<close> up to case.
\<close>

definition ci_eqs :: "string \<Rightarrow> string \<Rightarrow> bool" where
  "ci_eqs W w = list_all2 ci_eq W w"

type_synonym block = "string \<times> string"

fun flat :: "block list \<Rightarrow> string" where
  "flat [] = []"
| "flat ((w, sp) # bs) = w @ sp @ flat bs"

fun wf_blocks :: "block list \<Rightarrow> bool" where
  "wf_blocks [] = True"
| "wf_blocks ((w, sp) # bs) =
     (w \<noteq> [] \<and> list_all is_word w \<and> list_all (\<lambda>c. \<not> is_word c) sp
      \<and> (bs \<noteq> [] \<longrightarrow> sp \<noteq> []) \<and> wf_blocks bs)"

text \<open>
  What a substitution does to the blocks: a pattern \<open>\bW\b\<close> rewrites every word equal to
  \<open>W\<close> up to case; a pattern \<open>\bW1\s+W2\b\<close> merges, from left to right, two neighbouring
  words equal to \<open>W1\<close> and \<open>W2\<close> up to case and separated by whitespace only.
\<close>

definition rewrite_one :: "string \<Rightarrow> (string \<Rightarrow> string) \<Rightarrow> block list \<Rightarrow> block list" where
  "rewrite_one W f bs = map (\<lambda>(w, sp). (if ci_eqs W w then f w else w, sp)) bs"

fun rewrite_two :: "string \<Rightarrow> string \<Rightarrow> string \<Rightarrow> block list \<Rightarrow> block list" where
  "rewrite_two W1 W2 c ((w1, sp1) # (w2, sp2) # bs) =
     (if ci_eqs W1 w1 \<and> list_all is_space sp1 \<and> ci_eqs W2 w2
      then (c, sp2) # rewrite_two W1 W2 c bs
      else (w1, sp1) # rewrite_two W1 W2 c ((w2, sp2) # bs))"
| "rewrite_two W1 W2 c bs = bs"

text \<open>A pattern is word-anchored when it can only match at the start of a word.\<close>

definition word_anchored :: "rx list \<Rightarrow> bool" where
  "word_anchored pat =
     ((\<forall>prev x xs. \<not> is_word x \<longrightarrow> rmatch pat prev (x # xs) = None)
    \<and> (\<forall>prev x xs. prev_word prev \<longrightarrow> is_word x \<longrightarrow> rmatch pat prev (x # xs) = None)
    \<and> (\<forall>p q s. prev_word p = prev_word q \<longrightarrow> rmatch pat p s = rmatch pat q s))"



definition cli_word :: "string \<Rightarrow> string" where
  "cli_word w = (case case_aware_cli w of Inl e \<Rightarrow> [] | Inr r \<Rightarrow> r)"

definition normalize_blocks :: "block list \<Rightarrow> block list" where
  "normalize_blocks bs =
     rewrite_two ''Open'' ''claw'' ''OpenClaw''
       (rewrite_one ''Fallback'' (\<lambda>_. ''fallback'')
         (rewrite_one ''CLA'' cli_word
           (rewrite_two ''Subsider'' ''Agent'' ''subagent''
             (rewrite_one ''SubsiderAgent'' (\<lambda>_. ''subagent'') bs))))"

section \<open>Concrete instances for the examples\<close>

text \<open>
  The default configuration of the module, and one environment, state and capability each
  for the examples below.
\<close>

definition default_config :: config where
  "default_config =
     \<lparr>DEFAULT_MODEL = ''mlx-community/whisper-small-mlx'',
      WARMUP_SECONDS = 6 / 10,
      INITIAL_PROMPT = ''Terms: subagent, codex, claude, cli, fallback, OpenClaw''\<rparr>"

definition example_env :: env where
  "example_env =
     \<lparr>mkstemp = (\<lambda>fs sfx. ''/tmp/tmp0'' @ sfx),
      wave_file = (\<lambda>nchannels sampwidth framerate frames. ''RIFF'' @ frames),
      path_suffix = (\<lambda>name. if name = ''clip.mp3'' then ''.mp3'' else [])\<rparr>"

definition example_world :: world where
  "example_world =
     \<lparr>svc = service_init (DEFAULT_MODEL default_config) 100, files = Map.empty, calls = []\<rparr>"

definition warmed_world :: world where
  "warmed_world = example_world\<lparr>svc := (svc example_world)\<lparr>warmed := True\<rparr>\<rparr>"

definition failing_cap :: "nat capability" where
  "failing_cap fs call = (Inl (CapabilityError ''model load failed''), fs)"

definition example_cap :: "nat capability" where
  "example_cap fs call =
     (Inr (map_of [(''text'', PyStr '' use the CLA  ''), (''language'', PyStr ''en''),
                   (''segments'', PyList [1, 2])]), fs)"



section \<open>Facts about characters\<close>

lemma space_not_word: "is_space c \<Longrightarrow> \<not> is_word c"
  unfolding is_space_def is_word_def char_isupper_def char_islower_def between_def
  by arith

lemma code_char_of: "n < 256 \<Longrightarrow> code (char_of n) = n"
  by (simp add: code_def)

lemma upper_is_word: "char_isupper c \<Longrightarrow> is_word c"
  by (simp add: is_word_def)

lemma lower_of_upper: "char_isupper c \<Longrightarrow> char_islower (char_of (code c + 32))"
proof -
  assume u: "char_isupper c"
  then have "code c + 32 < 256"
    unfolding char_isupper_def between_def by arith
  then have "code (char_of (code c + 32)) = code c + 32"
    by (rule code_char_of)
  with u show ?thesis
    unfolding char_isupper_def char_islower_def between_def by arith
qed

lemma word_char_lower: "is_word c \<Longrightarrow> is_word (char_lower c)"
  using lower_of_upper [of c] by (auto simp: char_lower_def is_word_def)

lemma ci_word: "is_word c \<Longrightarrow> ci_eq c x \<Longrightarrow> is_word x"
  using word_char_lower [of c] upper_is_word [of x]
  by (cases "char_isupper x") (auto simp: ci_eq_def char_lower_def)

lemma rmatch_Spaces1_prev: "rmatch (Spaces1 # rs) p s = rmatch (Spaces1 # rs) None s"
  by (cases s) simp_all

section \<open>What the patterns match\<close>

lemma ci_eqs_simps [simp]:
  "ci_eqs [] [] = True" "ci_eqs [] (x # xs) = False" "ci_eqs (a # W) [] = False"
  "ci_eqs (a # W) (x # xs) = (ci_eq a x \<and> ci_eqs W xs)"
  by (simp_all add: ci_eqs_def)

lemma ci_eqs_word: "list_all is_word W \<Longrightarrow> ci_eqs W w \<Longrightarrow> list_all is_word w"
  unfolding ci_eqs_def
  by (induction W w rule: list_induct2') (auto dest: ci_word)

lemma ci_eqs_length: "ci_eqs W w \<Longrightarrow> length w = length W"
  by (simp add: ci_eqs_def list_all2_lengthD)

text \<open>The literals of a word and the final \<open>\b\<close>, against a word that a non-word character or
  the end of the text follows.\<close>
lemma rmatch_lits_end:
  assumes "list_all is_word W" "list_all is_word w" "\<not> next_word rest"
    and "W = [] \<longrightarrow> prev_word prev"
  shows "rmatch (map Lit W @ [WordB]) prev (w @ rest) =
           (if ci_eqs W w then Some (length w) else None)"
  using assms
proof (induction W arbitrary: prev w)
  case Nil
  then show ?case
    by (cases w) (auto simp: at_boundary_def next_word_def)
next
  case (Cons a W)
  show ?case
  proof (cases w)
    case Nil
    with Cons.prems show ?thesis
      by (cases rest) (auto simp: next_word_def dest: ci_word)
  next
    case (Cons x w')
    with Cons.prems Cons.IH [of w' "Some x"] show ?thesis
      by (auto simp: prev_word_def)
  qed
qed

lemma rmatch_one_word:
  assumes "W \<noteq> []" "list_all is_word W" "w \<noteq> []" "list_all is_word w"
    "\<not> next_word rest" "\<not> prev_word prev"
  shows "rmatch (WordB # map Lit W @ [WordB]) prev (w @ rest) =
           (if ci_eqs W w then Some (length w) else None)"
proof -
  from assms have "at_boundary prev (w @ rest)"
    by (cases w) (auto simp: at_boundary_def next_word_def)
  with assms rmatch_lits_end [of W w rest prev] show ?thesis by simp
qed

lemma rmatch_spaces_end:
  assumes "W \<noteq> []" "list_all is_word W" "list_all (\<lambda>c. \<not> is_word c) sp"
  shows "rmatch (Spaces1 # map Lit W @ [WordB]) prev sp = None"
  using assms
proof (induction sp arbitrary: prev)
  case Nil
  then show ?case by simp
next
  case (Cons x sp)
  then have "rmatch (map Lit W @ [WordB]) (Some x) sp = None"
    by (cases W; cases sp) (auto dest: ci_word)
  with Cons show ?case by simp
qed

lemma rmatch_spaces_word:
  assumes "W \<noteq> []" "list_all is_word W" "list_all (\<lambda>c. \<not> is_word c) sp"
    "w \<noteq> []" "list_all is_word w" "\<not> next_word rest"
  shows "rmatch (Spaces1 # map Lit W @ [WordB]) prev (sp @ w @ rest) =
           (if sp \<noteq> [] \<and> list_all is_space sp \<and> ci_eqs W w then Some (length sp + length w) else None)"
  using assms(3)
proof (induction sp arbitrary: prev)
  case Nil
  from assms(4,5) show ?case
    by (cases w) (auto dest: space_not_word)
next
  case (Cons x sp)
  have lits: "rmatch (map Lit W @ [WordB]) (Some x) (sp @ w @ rest) =
          (if sp = [] \<and> ci_eqs W w then Some (length w) else None)"
  proof (cases sp)
    case Nil
    with assms rmatch_lits_end [of W w rest "Some x"] show ?thesis by simp
  next
    case (Cons y sp')
    with Cons.prems assms(1,2) show ?thesis
      by (cases W) (auto dest: ci_word)
  qed
  from Cons.prems have "rmatch (Spaces1 # map Lit W @ [WordB]) (Some x) (sp @ w @ rest) =
           (if sp \<noteq> [] \<and> list_all is_space sp \<and> ci_eqs W w then Some (length sp + length w) else None)"
    using Cons.IH by simp
  with lits show ?case by auto
qed

lemma rmatch_lits_spaces:
  assumes "list_all is_word W1" "list_all is_word w1" "\<not> next_word s"
  shows "rmatch (map Lit W1 @ Spaces1 # rs) prev (w1 @ s) =
           (if ci_eqs W1 w1 then (case rmatch (Spaces1 # rs) None s of None \<Rightarrow> None | Some n \<Rightarrow> Some (length w1 + n)) else None)"
  using assms(1,2)
proof (induction W1 arbitrary: prev w1)
  case Nil
  show ?case
  proof (cases w1)
    case Nil
    then show ?thesis
      using rmatch_Spaces1_prev [of rs prev s] by (simp split: option.splits)
  next
    case (Cons x w')
    with Nil.prems show ?thesis by (auto dest: space_not_word)
  qed
next
  case (Cons a W)
  show ?case
  proof (cases w1)
    case Nil
    with Cons.prems assms(3) show ?thesis
      by (cases s) (auto simp: next_word_def dest: ci_word)
  next
    case (Cons x w')
    with Cons.prems Cons.IH [of w' "Some x"] show ?thesis
      by (auto split: option.splits)
  qed
qed

text \<open>None of the five patterns matches the empty string.\<close>

lemma rmatch_nonempty:
  "rmatch pat_subsideragent prev s \<noteq> Some 0" "rmatch pat_subsider_agent prev s \<noteq> Some 0"
  "rmatch pat_cla prev s \<noteq> Some 0" "rmatch pat_fallback prev s \<noteq> Some 0"
  "rmatch pat_open_claw prev s \<noteq> Some 0"
  by (cases s; simp add: pat_subsideragent_def pat_subsider_agent_def pat_cla_def
      pat_fallback_def pat_open_claw_def)+

section \<open>Scanning a text block by block\<close>

lemma word_anchoredI:
  assumes "is_word a"
  shows "word_anchored (WordB # Lit a # rs)"
proof -
  have 1: "rmatch (WordB # Lit a # rs) prev (x # xs) = None" if "\<not> is_word x" for prev x xs
    using that assms by (auto dest: ci_word)
  have 2: "rmatch (WordB # Lit a # rs) prev (x # xs) = None"
    if "prev_word prev" "is_word x" for prev x xs
    using that by (simp add: at_boundary_def next_word_def)
  have 3: "rmatch (WordB # Lit a # rs) p s = rmatch (WordB # Lit a # rs) q s"
    if "prev_word p = prev_word q" for p q s
    using that by (cases s) (simp_all add: at_boundary_def)
  from 1 2 3 show ?thesis
    unfolding word_anchored_def by blast
qed

lemma anchored_nonword:
  "word_anchored pat \<Longrightarrow> \<not> is_word x \<Longrightarrow> rmatch pat prev (x # xs) = None"
  unfolding word_anchored_def by blast

lemma anchored_inword:
  "word_anchored pat \<Longrightarrow> prev_word prev \<Longrightarrow> is_word x \<Longrightarrow> rmatch pat prev (x # xs) = None"
  unfolding word_anchored_def by blast

lemma anchored_cong:
  "word_anchored pat \<Longrightarrow> prev_word p = prev_word q \<Longrightarrow> rmatch pat p s = rmatch pat q s"
  unfolding word_anchored_def by blast

lemma sub_prev_cong:
  assumes "word_anchored pat" "prev_word p = prev_word q"
  shows "sub_from pat repl p s = sub_from pat repl q s"
proof (cases s)
  case Nil
  then show ?thesis by simp
next
  case (Cons x xs)
  from assms have "rmatch pat p (x # xs) = rmatch pat q (x # xs)"
    by (rule anchored_cong)
  with Cons show ?thesis by simp
qed

lemma sub_skip_nonword:
  assumes "word_anchored pat" "list_all (\<lambda>c. \<not> is_word c) sp" "sp \<noteq> []" "\<not> prev_word q"
  shows "sub_from pat repl prev (sp @ rest) =
           (case sub_from pat repl q rest of Inl e \<Rightarrow> Inl e | Inr r \<Rightarrow> Inr (sp @ r))"
  using assms(2,3)
proof (induction sp arbitrary: prev)
  case Nil
  then show ?case by simp
next
  case (Cons x sp)
  from Cons.prems have nm: "rmatch pat prev (x # sp @ rest) = None"
    by (simp add: anchored_nonword [OF assms(1)])
  show ?case
  proof (cases "sp = []")
    case True
    from Cons.prems assms(4) have "prev_word (Some x) = prev_word q"
      by (simp add: prev_word_def)
    from sub_prev_cong [OF assms(1) this] nm True show ?thesis by (simp split: sum.splits)
  next
    case False
    with Cons nm show ?thesis by (simp split: sum.splits)
  qed
qed

lemma sub_skip_inword:
  assumes "word_anchored pat" "list_all is_word w" "prev_word prev" "prev_word q"
  shows "sub_from pat repl prev (w @ rest) =
           (case sub_from pat repl q rest of Inl e \<Rightarrow> Inl e | Inr r \<Rightarrow> Inr (w @ r))"
  using assms(2,3)
proof (induction w arbitrary: prev)
  case Nil
  from sub_prev_cong [OF assms(1), of prev q] Nil.prems assms(4) show ?case
    by (simp split: sum.splits)
next
  case (Cons x w)
  from Cons.prems have nm: "rmatch pat prev (x # w @ rest) = None"
    by (simp add: anchored_inword [OF assms(1)])
  from Cons.prems have "prev_word (Some x)" by (simp add: prev_word_def)
  with Cons nm show ?case by (simp split: sum.splits)
qed

text \<open>After the first character of a word, the rest of the block is copied.\<close>
lemma sub_block_tail:
  assumes "word_anchored pat" "is_word c" "list_all is_word w" "list_all (\<lambda>c. \<not> is_word c) sp"
    and "bs \<noteq> [] \<longrightarrow> sp \<noteq> []"
    and "\<And>q. \<not> prev_word q \<Longrightarrow> sub_from pat repl q (flat bs) = Inr out"
  shows "sub_from pat repl (Some c) (w @ sp @ flat bs) = Inr (w @ sp @ out)"
proof -
  have pc: "prev_word (Some c)" using assms(2) by (simp add: prev_word_def)
  have tail: "sub_from pat repl (Some c) (sp @ flat bs) = Inr (sp @ out)"
  proof (cases "sp = []")
    case True
    with assms(5) have "flat bs = []" by simp
    with assms(6) [of None] have "out = []" by (simp add: prev_word_def)
    with True \<open>flat bs = []\<close> show ?thesis by simp
  next
    case False
    from sub_skip_nonword [OF assms(1) assms(4) False, of None repl "Some c" "flat bs"]
      assms(6) [of None]
    show ?thesis by (simp add: prev_word_def)
  qed
  from sub_skip_inword [OF assms(1) assms(3) pc pc, of repl "sp @ flat bs"] tail
  show ?thesis by simp
qed

lemma wf_next: "wf_blocks ((w, sp) # bs) \<Longrightarrow> \<not> next_word (sp @ flat bs)"
  by (cases sp; cases bs) (auto simp: next_word_def)

lemma sub_one_word_blocks:
  assumes W: "W \<noteq> []" "list_all is_word W"
    and repl: "\<And>w. ci_eqs W w \<Longrightarrow> repl w = Inr (f w)"
  shows "wf_blocks bs \<Longrightarrow> \<not> prev_word prev \<Longrightarrow>
         sub_from (WordB # map Lit W @ [WordB]) repl prev (flat bs) = Inr (flat (rewrite_one W f bs))"
proof -
  define pat where "pat = WordB # map Lit W @ [WordB]"
  from W obtain a W' where Wc: "W = a # W'" "is_word a" by (cases W) auto
  then have anch: "word_anchored pat" using word_anchoredI [of a] by (simp add: pat_def)
  have "wf_blocks bs \<Longrightarrow> \<not> prev_word prev \<Longrightarrow>
         sub_from pat repl prev (flat bs) = Inr (flat (rewrite_one W f bs))"
  proof (induction bs arbitrary: prev)
    case Nil
    then show ?case by (simp add: rewrite_one_def)
  next
    case (Cons b bs)
    obtain w sp where b: "b = (w, sp)" by (cases b)
    from Cons.prems b obtain x w' where w: "w = x # w'" by (cases w) auto
    from Cons.prems b have wf: "list_all is_word w" "list_all (\<lambda>c. \<not> is_word c) sp"
      "bs \<noteq> [] \<longrightarrow> sp \<noteq> []" "wf_blocks bs" by auto
    from Cons.prems(1) have nn: "\<not> next_word (sp @ flat bs)"
      unfolding b by (rule wf_next)
    have wne: "w \<noteq> []" using w by simp
    have m: "rmatch pat prev (x # w' @ sp @ flat bs) = (if ci_eqs W w then Some (Suc (length w')) else None)"
      using rmatch_one_word [OF W wne wf(1) nn Cons.prems(2)] unfolding pat_def w by simp
    have IH: "\<And>q. \<not> prev_word q \<Longrightarrow> sub_from pat repl q (flat bs) = Inr (flat (rewrite_one W f bs))"
      using Cons.IH wf(4) by simp
    have lw: "is_word (last w)" using wf(1) w by (simp add: list_all_iff)
    have fl: "flat (b # bs) = x # w' @ sp @ flat bs" by (simp add: b w)
    show ?case
    proof (cases "ci_eqs W w")
      case True
      have "sub_from pat repl (Some (last w)) ([] @ sp @ flat bs) = Inr ([] @ sp @ flat (rewrite_one W f bs))"
        by (rule sub_block_tail [OF anch lw _ wf(2) wf(3) IH]) simp_all
      then have t: "sub_from pat repl (Some (last (x # w'))) (sp @ flat bs) = Inr (sp @ flat (rewrite_one W f bs))"
        by (simp add: w)
      have r: "repl (x # w') = Inr (f w)" using repl [OF True] by (simp add: w)
      have "flat (rewrite_one W f (b # bs)) = f w @ sp @ flat (rewrite_one W f bs)"
        using True by (simp add: rewrite_one_def b)
      with True m t r show ?thesis
        unfolding fl by (simp del: last.simps)
    next
      case False
      have t: "sub_from pat repl (Some x) (w' @ sp @ flat bs) = Inr (w' @ sp @ flat (rewrite_one W f bs))"
        by (rule sub_block_tail [OF anch _ _ wf(2) wf(3) IH]) (use wf(1) w in simp_all)
      have "flat (rewrite_one W f (b # bs)) = x # w' @ sp @ flat (rewrite_one W f bs)"
        using False by (simp add: rewrite_one_def b w)
      with False m t show ?thesis
        unfolding fl by simp
    qed
  qed
  then show "wf_blocks bs \<Longrightarrow> \<not> prev_word prev \<Longrightarrow>
         sub_from (WordB # map Lit W @ [WordB]) repl prev (flat bs) = Inr (flat (rewrite_one W f bs))"
    unfolding pat_def .
qed

lemma sub_match:
  assumes "rmatch pat prev (x # u @ rest) = Some (Suc (length u))"
    and "repl (x # u) = Inr r"
    and "sub_from pat repl (Some (last (x # u))) rest = Inr out"
  shows "sub_from pat repl prev (x # u @ rest) = Inr (r @ out)"
  using assms by (simp del: last.simps)

lemma sub_block_nomatch:
  assumes "word_anchored pat" "wf_blocks ((w, sp) # bs)"
    and "rmatch pat prev (w @ sp @ flat bs) = None"
    and "\<And>q. \<not> prev_word q \<Longrightarrow> sub_from pat repl q (flat bs) = Inr out"
  shows "sub_from pat repl prev (w @ sp @ flat bs) = Inr (w @ sp @ out)"
proof -
  from assms(2) obtain x w' where w: "w = x # w'" by (cases w) auto
  from assms(2) have wf: "list_all is_word w" "list_all (\<lambda>c. \<not> is_word c) sp"
    "bs \<noteq> [] \<longrightarrow> sp \<noteq> []" by auto
  have "sub_from pat repl (Some x) (w' @ sp @ flat bs) = Inr (w' @ sp @ out)"
    by (rule sub_block_tail [OF assms(1) _ _ wf(2) wf(3) assms(4)]) (use wf(1) w in simp_all)
  with assms(3) show ?thesis by (simp add: w)
qed

lemma sub_block_match:
  assumes "word_anchored pat" "is_word (last (x # u))"
    and "list_all (\<lambda>c. \<not> is_word c) sp" "bs \<noteq> [] \<longrightarrow> sp \<noteq> []"
    and "rmatch pat prev (x # u @ sp @ flat bs) = Some (Suc (length u))"
    and "repl (x # u) = Inr r"
    and "\<And>q. \<not> prev_word q \<Longrightarrow> sub_from pat repl q (flat bs) = Inr out"
  shows "sub_from pat repl prev (x # u @ sp @ flat bs) = Inr (r @ sp @ out)"
proof -
  note lw = assms(2)
  have "sub_from pat repl (Some (last (x # u))) ([] @ sp @ flat bs) = Inr ([] @ sp @ out)"
    by (rule sub_block_tail [OF assms(1) lw _ assms(3) assms(4) assms(7)]) simp
  then have "sub_from pat repl (Some (last (x # u))) (sp @ flat bs) = Inr (sp @ out)"
    by simp
  from sub_match [OF assms(5) assms(6) this] show ?thesis .
qed

lemma rmatch_two_word:
  assumes W: "W1 \<noteq> []" "list_all is_word W1" "W2 \<noteq> []" "list_all is_word W2"
    and wf: "wf_blocks ((w1, sp1) # bs)" and prev: "\<not> prev_word prev"
  shows "rmatch (WordB # map Lit W1 @ Spaces1 # map Lit W2 @ [WordB]) prev (w1 @ sp1 @ flat bs) =
     (case bs of
        [] \<Rightarrow> None
      | (w2, sp2) # bs' \<Rightarrow>
          if ci_eqs W1 w1 \<and> list_all is_space sp1 \<and> ci_eqs W2 w2
          then Some (length w1 + (length sp1 + length w2)) else None)"
proof -
  from wf have w1: "w1 \<noteq> []" "list_all is_word w1" and sp1: "list_all (\<lambda>c. \<not> is_word c) sp1"
    by auto
  from wf have nn: "\<not> next_word (sp1 @ flat bs)" by (rule wf_next)
  from w1 prev have "at_boundary prev (w1 @ sp1 @ flat bs)"
    by (cases w1) (auto simp: at_boundary_def next_word_def)
  then have 1: "rmatch (WordB # map Lit W1 @ Spaces1 # map Lit W2 @ [WordB]) prev (w1 @ sp1 @ flat bs)
      = (if ci_eqs W1 w1 then
           (case rmatch (Spaces1 # map Lit W2 @ [WordB]) None (sp1 @ flat bs) of
              None \<Rightarrow> None | Some n \<Rightarrow> Some (length w1 + n)) else None)"
    using rmatch_lits_spaces [OF W(2) w1(2) nn, of "map Lit W2 @ [WordB]" prev] by simp
  show ?thesis
  proof (cases bs)
    case Nil
    with 1 rmatch_spaces_end [OF W(3,4) sp1, of None] show ?thesis by simp
  next
    case (Cons b bs')
    obtain w2 sp2 where b: "b = (w2, sp2)" by (cases b)
    from wf Cons b have w2: "w2 \<noteq> []" "list_all is_word w2" and ne: "sp1 \<noteq> []"
      and wf2: "wf_blocks ((w2, sp2) # bs')" by auto
    from wf2 have nn2: "\<not> next_word (sp2 @ flat bs')" by (rule wf_next)
    from rmatch_spaces_word [OF W(3,4) sp1 w2 nn2, of None] 1 Cons b ne
    show ?thesis by simp
  qed
qed

lemma sub_two_word_blocks:
  assumes W: "W1 \<noteq> []" "list_all is_word W1" "W2 \<noteq> []" "list_all is_word W2"
    and repl: "\<And>tok. repl tok = Inr c"
  shows "wf_blocks bs \<Longrightarrow> \<not> prev_word prev \<Longrightarrow>
         sub_from (WordB # map Lit W1 @ Spaces1 # map Lit W2 @ [WordB]) repl prev (flat bs)
           = Inr (flat (rewrite_two W1 W2 c bs))"
proof -
  define pat where "pat = WordB # map Lit W1 @ Spaces1 # map Lit W2 @ [WordB]"
  from W obtain a W' where Wc: "W1 = a # W'" "is_word a" by (cases W1) auto
  then have anch: "word_anchored pat" using word_anchoredI [of a] by (simp add: pat_def)
  note m = rmatch_two_word [OF W, folded pat_def]
  have "wf_blocks bs \<Longrightarrow> \<not> prev_word prev \<Longrightarrow>
         sub_from pat repl prev (flat bs) = Inr (flat (rewrite_two W1 W2 c bs))"
  proof (induction bs arbitrary: prev rule: induct_list012)
    case 1
    then show ?case by simp
  next
    case (2 b)
    obtain w sp where b: "b = (w, sp)" by (cases b)
    have mm: "rmatch pat prev (w @ sp @ flat []) = None"
      using m [OF "2.prems" [unfolded b]] by simp
    have "\<And>q. \<not> prev_word q \<Longrightarrow> sub_from pat repl q (flat []) = Inr []" by simp
    from sub_block_nomatch [OF anch "2.prems"(1) [unfolded b] mm this] show ?case
      by (simp add: b)
  next
    case (3 b1 b2 bs)
    obtain w1 sp1 where b1: "b1 = (w1, sp1)" by (cases b1)
    obtain w2 sp2 where b2: "b2 = (w2, sp2)" by (cases b2)
    note prems = "3.prems" [unfolded b1 b2]
    let ?cond = "ci_eqs W1 w1 \<and> list_all is_space sp1 \<and> ci_eqs W2 w2"
    show ?case
    proof (cases ?cond)
      case True
      from prems obtain x w1' where w1: "w1 = x # w1'" by (cases w1) auto
      define u where "u = w1' @ sp1 @ w2"
      from prems have wf2: "list_all (\<lambda>c. \<not> is_word c) sp2" "bs \<noteq> [] \<longrightarrow> sp2 \<noteq> []"
        "wf_blocks bs" by auto
      have IH: "\<And>q. \<not> prev_word q \<Longrightarrow> sub_from pat repl q (flat bs) = Inr (flat (rewrite_two W1 W2 c bs))"
        using "3.IH"(1) wf2(3) by simp
      from prems True have lw: "is_word (last (x # u))"
        by (cases w2 rule: rev_cases) (auto simp: u_def)
      from True have c: "ci_eqs W1 w1" "list_all is_space sp1" "ci_eqs W2 w2" by simp_all
      have "rmatch pat prev (w1 @ sp1 @ flat ((w2, sp2) # bs)) =
              Some (length w1 + (length sp1 + length w2))"
        using m [OF prems] c by simp
      then have mm: "rmatch pat prev (x # u @ sp2 @ flat bs) = Some (Suc (length u))"
        by (simp add: w1 u_def)
      have "sub_from pat repl prev (x # u @ sp2 @ flat bs) = Inr (c @ sp2 @ flat (rewrite_two W1 W2 c bs))"
        by (rule sub_block_match [OF anch lw wf2(1) wf2(2) mm repl IH])
      with True show ?thesis by (simp add: b1 b2 w1 u_def)
    next
      case False
      from prems have wf2: "wf_blocks ((w2, sp2) # bs)" by simp
      have IH: "\<And>q. \<not> prev_word q \<Longrightarrow>
          sub_from pat repl q (flat ((w2, sp2) # bs)) = Inr (flat (rewrite_two W1 W2 c ((w2, sp2) # bs)))"
        using "3.IH"(2) wf2 unfolding b2 by blast
      have mm: "rmatch pat prev (w1 @ sp1 @ flat ((w2, sp2) # bs)) = None"
        using m [OF prems] False by auto
      from sub_block_nomatch [OF anch prems(1) mm IH] False show ?thesis by (auto simp: b1 b2)
    qed
  qed
  then show "wf_blocks bs \<Longrightarrow> \<not> prev_word prev \<Longrightarrow>
         sub_from (WordB # map Lit W1 @ Spaces1 # map Lit W2 @ [WordB]) repl prev (flat bs)
           = Inr (flat (rewrite_two W1 W2 c bs))"
    unfolding pat_def .
qed


lemma sub_lead:
  assumes "word_anchored pat" "list_all (\<lambda>c. \<not> is_word c) lead"
    and "\<And>q. \<not> prev_word q \<Longrightarrow> sub_from pat repl q s = Inr out"
  shows "sub_from pat repl None (lead @ s) = Inr (lead @ out)"
proof (cases "lead = []")
  case True
  with assms(3) [of None] show ?thesis by (simp add: prev_word_def)
next
  case False
  from sub_skip_nonword [OF assms(1,2) False, of None repl None s] assms(3) [of None]
  show ?thesis by (simp add: prev_word_def)
qed

lemma re_sub_one_word:
  assumes "W \<noteq> []" "list_all is_word W"
    and "\<And>w. ci_eqs W w \<Longrightarrow> repl w = Inr (f w)"
    and "list_all (\<lambda>c. \<not> is_word c) lead" "wf_blocks bs"
  shows "re_sub (WordB # map Lit W @ [WordB]) repl (lead @ flat bs) = Inr (lead @ flat (rewrite_one W f bs))"
proof -
  from assms(1,2) obtain a W' where Wc: "W = a # W'" "is_word a" by (cases W) auto
  then have anch: "word_anchored (WordB # map Lit W @ [WordB])" using word_anchoredI [of a] by simp
  show ?thesis
    unfolding re_sub_def
    by (rule sub_lead [OF anch assms(4)]) (rule sub_one_word_blocks [OF assms(1,2,3) assms(5)])
qed

lemma re_sub_two_word:
  assumes "W1 \<noteq> []" "list_all is_word W1" "W2 \<noteq> []" "list_all is_word W2"
    and "list_all (\<lambda>c. \<not> is_word c) lead" "wf_blocks bs"
  shows "re_sub (WordB # map Lit W1 @ Spaces1 # map Lit W2 @ [WordB]) (const_repl c) (lead @ flat bs)
           = Inr (lead @ flat (rewrite_two W1 W2 c bs))"
proof -
  from assms(1,2) obtain a W' where Wc: "W1 = a # W'" "is_word a" by (cases W1) auto
  then have anch: "word_anchored (WordB # map Lit W1 @ Spaces1 # map Lit W2 @ [WordB])"
    using word_anchoredI [of a] by simp
  have r: "\<And>tok. const_repl c tok = Inr c" by (simp add: const_repl_def)
  show ?thesis
    unfolding re_sub_def
    by (rule sub_lead [OF anch assms(5)]) (rule sub_two_word_blocks [OF assms(1-4) r assms(6)])
qed

lemma wf_rewrite_one:
  assumes "\<And>w. ci_eqs W w \<Longrightarrow> f w \<noteq> [] \<and> list_all is_word (f w)"
  shows "wf_blocks bs \<Longrightarrow> wf_blocks (rewrite_one W f bs)"
proof (induction bs)
  case Nil
  then show ?case by (simp add: rewrite_one_def)
next
  case (Cons b bs)
  obtain w sp where b: "b = (w, sp)" by (cases b)
  from Cons have "wf_blocks (rewrite_one W f bs)" by (simp add: b)
  moreover have "rewrite_one W f (b # bs) = (if ci_eqs W w then f w else w, sp) # rewrite_one W f bs"
    by (simp add: rewrite_one_def b)
  moreover have "rewrite_one W f bs \<noteq> [] \<longrightarrow> bs \<noteq> []" by (simp add: rewrite_one_def)
  ultimately show ?case using Cons.prems assms [of w] by (auto simp: b)
qed

lemma rewrite_two_Nil: "rewrite_two W1 W2 c bs = [] \<longleftrightarrow> bs = []"
  by (induction W1 W2 c bs rule: rewrite_two.induct) auto

lemma wf_rewrite_two:
  assumes "c \<noteq> []" "list_all is_word c"
  shows "wf_blocks bs \<Longrightarrow> wf_blocks (rewrite_two W1 W2 c bs)"
  using assms
  by (induction W1 W2 c bs rule: rewrite_two.induct) (auto simp: rewrite_two_Nil)

section \<open>Rewriting blocks\<close>













section \<open>The normalizer on blocks\<close>

lemma case_aware_cli_cases:
  "w \<noteq> [] \<Longrightarrow> case_aware_cli w = Inr ''CLI'' \<or> case_aware_cli w = Inr ''cli'' \<or> case_aware_cli w = Inr ''Cli''"
  by (cases w) (simp_all add: case_aware_cli_def)

lemma cli_word_ok: "ci_eqs ''CLA'' w \<Longrightarrow> case_aware_cli w = Inr (cli_word w)"
  using case_aware_cli_cases [of w] by (cases w) (auto simp: cli_word_def)

lemma cli_word_cases:
  "ci_eqs ''CLA'' w \<Longrightarrow> cli_word w = ''CLI'' \<or> cli_word w = ''cli'' \<or> cli_word w = ''Cli''"
  using case_aware_cli_cases [of w] by (cases w) (auto simp: cli_word_def)

lemma pattern_words:
  "list_all is_word ''SubsiderAgent''" "list_all is_word ''Subsider''" "list_all is_word ''Agent''"
  "list_all is_word ''CLA''" "list_all is_word ''Fallback''" "list_all is_word ''Open''"
  "list_all is_word ''claw''"
  by code_simp+

lemma canonical_words:
  "list_all is_word ''subagent''" "list_all is_word ''CLI''" "list_all is_word ''cli''"
  "list_all is_word ''Cli''" "list_all is_word ''fallback''" "list_all is_word ''OpenClaw''"
  by code_simp+

text \<open>No canonical word is matched by a pattern word, except \<open>fallback\<close> by its own rule.\<close>

lemma fresh_words:
  "\<not> ci_eqs ''SubsiderAgent'' ''subagent''" "\<not> ci_eqs ''SubsiderAgent'' ''CLI''"
  "\<not> ci_eqs ''SubsiderAgent'' ''cli''" "\<not> ci_eqs ''SubsiderAgent'' ''Cli''"
  "\<not> ci_eqs ''SubsiderAgent'' ''fallback''" "\<not> ci_eqs ''SubsiderAgent'' ''OpenClaw''"
  "\<not> ci_eqs ''Subsider'' ''subagent''" "\<not> ci_eqs ''Subsider'' ''CLI''"
  "\<not> ci_eqs ''Subsider'' ''cli''" "\<not> ci_eqs ''Subsider'' ''Cli''"
  "\<not> ci_eqs ''Subsider'' ''fallback''" "\<not> ci_eqs ''Subsider'' ''OpenClaw''"
  "\<not> ci_eqs ''Agent'' ''subagent''" "\<not> ci_eqs ''Agent'' ''CLI''"
  "\<not> ci_eqs ''Agent'' ''cli''" "\<not> ci_eqs ''Agent'' ''Cli''"
  "\<not> ci_eqs ''Agent'' ''fallback''" "\<not> ci_eqs ''Agent'' ''OpenClaw''"
  "\<not> ci_eqs ''CLA'' ''subagent''"
  "\<not> ci_eqs ''CLA'' ''CLI''" "\<not> ci_eqs ''CLA'' ''cli''" "\<not> ci_eqs ''CLA'' ''Cli''"
  "\<not> ci_eqs ''CLA'' ''fallback''" "\<not> ci_eqs ''CLA'' ''OpenClaw''"
  "\<not> ci_eqs ''Fallback'' ''subagent''" "\<not> ci_eqs ''Fallback'' ''OpenClaw''"
  "\<not> ci_eqs ''Fallback'' ''CLI''" "\<not> ci_eqs ''Fallback'' ''cli''" "\<not> ci_eqs ''Fallback'' ''Cli''"
  "\<not> ci_eqs ''Open'' ''OpenClaw''" "\<not> ci_eqs ''claw'' ''OpenClaw''"
  "\<not> ci_eqs ''Open'' ''subagent''" "\<not> ci_eqs ''claw'' ''subagent''"
  "\<not> ci_eqs ''Open'' ''fallback''" "\<not> ci_eqs ''claw'' ''fallback''"
  "\<not> ci_eqs ''Open'' ''CLI''" "\<not> ci_eqs ''Open'' ''cli''" "\<not> ci_eqs ''Open'' ''Cli''"
  "\<not> ci_eqs ''claw'' ''CLI''" "\<not> ci_eqs ''claw'' ''cli''" "\<not> ci_eqs ''claw'' ''Cli''"
  by code_simp+


lemma wf_rewrite_const:
  assumes "c \<noteq> []" "list_all is_word c" "wf_blocks bs"
  shows "wf_blocks (rewrite_one W (\<lambda>_. c) bs)"
  using assms(1,2) by (intro wf_rewrite_one [OF _ assms(3)]) simp

lemma wf_rewrite_cli:
  assumes "wf_blocks bs"
  shows "wf_blocks (rewrite_one ''CLA'' cli_word bs)"
proof (rule wf_rewrite_one [OF _ assms])
  fix w assume "ci_eqs ''CLA'' w"
  from cli_word_cases [OF this] canonical_words(2,3,4)
  show "cli_word w \<noteq> [] \<and> list_all is_word (cli_word w)" by auto
qed






lemma normalize_terms_blocks:
  assumes lead: "list_all (\<lambda>c. \<not> is_word c) lead" and wf: "wf_blocks bs"
  shows "normalize_terms (lead @ flat bs) = Inr (lead @ flat (normalize_blocks bs))"
    and "wf_blocks (normalize_blocks bs)"
proof -
  define B1 where "B1 = rewrite_one ''SubsiderAgent'' (\<lambda>_. ''subagent'') bs"
  define B2 where "B2 = rewrite_two ''Subsider'' ''Agent'' ''subagent'' B1"
  define B3 where "B3 = rewrite_one ''CLA'' cli_word B2"
  define B4 where "B4 = rewrite_one ''Fallback'' (\<lambda>_. ''fallback'') B3"
  define B5 where "B5 = rewrite_two ''Open'' ''claw'' ''OpenClaw'' B4"
  have nb: "normalize_blocks bs = B5"
    by (simp add: normalize_blocks_def B1_def B2_def B3_def B4_def B5_def)
  have w1: "wf_blocks B1" unfolding B1_def
    by (rule wf_rewrite_const [OF _ canonical_words(1) wf]) simp
  have w2: "wf_blocks B2" unfolding B2_def
    by (rule wf_rewrite_two [OF _ canonical_words(1) w1]) simp
  have w3: "wf_blocks B3" unfolding B3_def
    by (rule wf_rewrite_cli [OF w2])
  have w4: "wf_blocks B4" unfolding B4_def
    by (rule wf_rewrite_const [OF _ canonical_words(5) w3]) simp
  have w5: "wf_blocks B5" unfolding B5_def
    by (rule wf_rewrite_two [OF _ canonical_words(6) w4]) simp
  have r1: "re_sub pat_subsideragent (const_repl ''subagent'') (lead @ flat bs) = Inr (lead @ flat B1)"
    unfolding pat_subsideragent_def B1_def
    by (rule re_sub_one_word [OF _ pattern_words(1) _ lead wf]) (simp_all add: const_repl_def)
  have r2: "re_sub pat_subsider_agent (const_repl ''subagent'') (lead @ flat B1) = Inr (lead @ flat B2)"
    unfolding pat_subsider_agent_def B2_def
    by (rule re_sub_two_word [OF _ pattern_words(2) _ pattern_words(3) lead w1]) simp_all
  have r3: "re_sub pat_cla case_aware_cli (lead @ flat B2) = Inr (lead @ flat B3)"
    unfolding pat_cla_def B3_def
    by (rule re_sub_one_word [OF _ pattern_words(4) _ lead w2]) (simp_all add: cli_word_ok)
  have r4: "re_sub pat_fallback (const_repl ''fallback'') (lead @ flat B3) = Inr (lead @ flat B4)"
    unfolding pat_fallback_def B4_def
    by (rule re_sub_one_word [OF _ pattern_words(5) _ lead w3]) (simp_all add: const_repl_def)
  have r5: "re_sub pat_open_claw (const_repl ''OpenClaw'') (lead @ flat B4) = Inr (lead @ flat B5)"
    unfolding pat_open_claw_def B5_def
    by (rule re_sub_two_word [OF _ pattern_words(6) _ pattern_words(7) lead w4]) simp_all
  show "normalize_terms (lead @ flat bs) = Inr (lead @ flat (normalize_blocks bs))"
    unfolding normalize_terms_def nb by (simp add: bind_def r1 r2 r3 r4 r5)
  show "wf_blocks (normalize_blocks bs)" unfolding nb by (rule w5)
qed


section \<open>The abbreviation and the compound terms\<close>

lemma code_inj: "code x = code y \<Longrightarrow> x = y"
  by (simp add: code_def)

lemma ci_eq_upper_cases:
  assumes "between 65 90 (code p)" "ci_eq p x"
  shows "x = p \<or> x = char_of (code p + 32)"
proof -
  from assms(1) have up: "char_isupper p" by (simp add: char_isupper_def)
  from assms(1) have lt: "code p + 32 < 256" by (simp add: between_def)
  from assms(2) up have e: "char_lower x = char_of (code p + 32)"
    by (simp add: ci_eq_def char_lower_def)
  show ?thesis
  proof (cases "char_isupper x")
    case False
    with e show ?thesis by (simp add: char_lower_def)
  next
    case True
    then have ltx: "code x + 32 < 256"
      unfolding char_isupper_def between_def by arith
    from True e have "(code x + 32) mod 256 = (code p + 32) mod 256"
      by (simp add: char_lower_def)
    with lt ltx have "code x = code p" by simp
    then show ?thesis by (simp add: code_inj)
  qed
qed

lemma ci_eq_C: "ci_eq CHR ''C'' x \<Longrightarrow> x = CHR ''C'' \<or> x = CHR ''c''"
  and ci_eq_L: "ci_eq CHR ''L'' x \<Longrightarrow> x = CHR ''L'' \<or> x = CHR ''l''"
  and ci_eq_A: "ci_eq CHR ''A'' x \<Longrightarrow> x = CHR ''A'' \<or> x = CHR ''a''"
proof -
  have c: "char_of (code CHR ''C'' + 32) = CHR ''c''" "char_of (code CHR ''L'' + 32) = CHR ''l''"
    "char_of (code CHR ''A'' + 32) = CHR ''a''"
    by code_simp+
  have b: "between 65 90 (code CHR ''C'')" "between 65 90 (code CHR ''L'')"
    "between 65 90 (code CHR ''A'')"
    by code_simp+
  show "ci_eq CHR ''C'' x \<Longrightarrow> x = CHR ''C'' \<or> x = CHR ''c''"
    using ci_eq_upper_cases [OF b(1), of x] by (simp only: c)
  show "ci_eq CHR ''L'' x \<Longrightarrow> x = CHR ''L'' \<or> x = CHR ''l''"
    using ci_eq_upper_cases [OF b(2), of x] by (simp only: c)
  show "ci_eq CHR ''A'' x \<Longrightarrow> x = CHR ''A'' \<or> x = CHR ''a''"
    using ci_eq_upper_cases [OF b(3), of x] by (simp only: c)
qed

lemma cla_variants:
  assumes "ci_eqs ''CLA'' tok"
  shows "tok \<in> {''CLA'', ''CLa'', ''ClA'', ''Cla'', ''cLA'', ''cLa'', ''clA'', ''cla''}"
proof -
  from assms obtain x y z where t: "tok = [x, y, z]"
    and "ci_eq CHR ''C'' x" "ci_eq CHR ''L'' y" "ci_eq CHR ''A'' z"
    by (cases tok; cases "tl tok"; cases "tl (tl tok)"; cases "tl (tl (tl tok))") auto
  then have "x = CHR ''C'' \<or> x = CHR ''c''" "y = CHR ''L'' \<or> y = CHR ''l''" "z = CHR ''A'' \<or> z = CHR ''a''"
    by (auto dest: ci_eq_C ci_eq_L ci_eq_A)
  with t show ?thesis by auto
qed

lemma cli_table:
  "case_aware_cli ''CLA'' = Inr ''CLI''" "case_aware_cli ''CLa'' = Inr ''CLI''"
  "case_aware_cli ''ClA'' = Inr ''CLI''" "case_aware_cli ''Cla'' = Inr ''Cli''"
  "case_aware_cli ''cLA'' = Inr ''CLI''" "case_aware_cli ''cLa'' = Inr ''CLI''"
  "case_aware_cli ''clA'' = Inr ''CLI''" "case_aware_cli ''cla'' = Inr ''cli''"
  by code_simp+

lemma case_aware_cli_table:
  assumes "ci_eqs ''CLA'' tok"
  shows "case_aware_cli tok =
     Inr (if tok = ''CLA'' then ''CLI'' else if tok = ''cla'' then ''cli''
          else if tok = ''Cla'' then ''Cli'' else ''CLI'')"
  using cla_variants [OF assms] by (auto simp: cli_table)

text \<open>A word that the pattern matches, between non-word characters, is replaced.\<close>
lemma sub_one_word_match:
  assumes W: "W \<noteq> []" "list_all is_word W" and m: "ci_eqs W w"
    and ctx: "\<not> prev_word prev" "\<not> next_word rest"
  shows "sub_from (WordB # map Lit W @ [WordB]) repl prev (w @ rest) =
     (case repl w of
        Inl e \<Rightarrow> Inl e
      | Inr r \<Rightarrow> (case sub_from (WordB # map Lit W @ [WordB]) repl (Some (last w)) rest of
                    Inl e \<Rightarrow> Inl e | Inr out \<Rightarrow> Inr (r @ out)))"
proof -
  from m W have w: "w \<noteq> []" "list_all is_word w"
    using ci_eqs_word [OF W(2) m] by (auto dest: ci_eqs_length)
  then obtain x u where xu: "w = x # u" by (cases w) auto
  from rmatch_one_word [OF W w ctx(2) ctx(1)] m
  have "rmatch (WordB # map Lit W @ [WordB]) prev (x # u @ rest) = Some (Suc (length u))"
    by (simp add: xu)
  then show ?thesis
    unfolding xu by (simp del: last.simps rmatch.simps split: sum.splits)
qed

text \<open>A word that the pattern does not match is copied, whatever precedes it.\<close>
lemma sub_one_word_skip:
  assumes W: "W \<noteq> []" "list_all is_word W" and w: "list_all is_word w" "\<not> ci_eqs W w" "w \<noteq> []"
    and ctx: "\<not> next_word rest"
  shows "rmatch (WordB # map Lit W @ [WordB]) prev (w @ rest) = None"
    and "sub_from (WordB # map Lit W @ [WordB]) repl prev (w @ rest) =
     (case sub_from (WordB # map Lit W @ [WordB]) repl (Some (last w)) rest of
        Inl e \<Rightarrow> Inl e | Inr out \<Rightarrow> Inr (w @ out))"
proof -
  let ?pat = "WordB # map Lit W @ [WordB]"
  from W obtain a W' where Wc: "W = a # W'" "is_word a" by (cases W) auto
  then have anch: "word_anchored ?pat" using word_anchoredI [of a] by simp
  from w obtain x u where xu: "w = x # u" by (cases w) auto
  show nm: "rmatch ?pat prev (w @ rest) = None"
  proof (cases "prev_word prev")
    case True
    with w(1) xu show ?thesis
      using anchored_inword [OF anch True, of x "u @ rest"] by simp
  next
    case False
    from rmatch_one_word [OF W w(3) w(1) ctx False] w(2) show ?thesis by simp
  qed
  have px: "prev_word (Some x)" and pl: "prev_word (Some (last w))"
    using w(1) xu last_in_set [of w] by (auto simp: prev_word_def list_all_iff)
  from w(1) xu have u: "list_all is_word u" by simp
  have "sub_from ?pat repl (Some x) (u @ rest) =
      (case sub_from ?pat repl (Some (last w)) rest of Inl e \<Rightarrow> Inl e | Inr out \<Rightarrow> Inr (u @ out))"
    by (rule sub_skip_inword [OF anch u px pl])
  with nm show "sub_from ?pat repl prev (w @ rest) =
     (case sub_from ?pat repl (Some (last w)) rest of
        Inl e \<Rightarrow> Inl e | Inr out \<Rightarrow> Inr (w @ out))"
    unfolding xu by (simp del: last.simps rmatch.simps split: sum.splits)
qed

lemma normalize_whole_text:
  assumes "wf_blocks bs"
  shows "normalize_terms (flat bs) = Inr (flat (normalize_blocks bs))"
  using normalize_terms_blocks(1) [of "[]" bs] assms by simp

lemma normalize_blocks_subsideragent:
  assumes "ci_eqs ''SubsiderAgent'' w"
  shows "normalize_blocks [(w, [])] = [(''subagent'', [])]"
  using assms unfolding normalize_blocks_def rewrite_one_def
  by (simp del: ci_eqs_simps add: fresh_words)

lemma normalize_blocks_subsider_agent:
  assumes "ci_eqs ''Subsider'' w1" "list_all is_space sp" "ci_eqs ''Agent'' w2"
  shows "normalize_blocks [(w1, sp), (w2, [])] = [(''subagent'', [])]"
proof -
  from assms(1,3) have "\<not> ci_eqs ''SubsiderAgent'' w1" "\<not> ci_eqs ''SubsiderAgent'' w2"
    by (auto dest!: ci_eqs_length)
  with assms show ?thesis
    unfolding normalize_blocks_def rewrite_one_def
    by (simp del: ci_eqs_simps add: fresh_words)
qed

lemma normalize_blocks_open_claw:
  assumes "ci_eqs ''Open'' w1" "list_all is_space sp" "ci_eqs ''claw'' w2"
  shows "normalize_blocks [(w1, sp), (w2, [])] = [(''OpenClaw'', [])]"
proof -
  from assms(1,3) have "\<not> ci_eqs ''SubsiderAgent'' w1" "\<not> ci_eqs ''SubsiderAgent'' w2"
    "\<not> ci_eqs ''Subsider'' w1" "\<not> ci_eqs ''CLA'' w1" "\<not> ci_eqs ''CLA'' w2"
    "\<not> ci_eqs ''Fallback'' w1" "\<not> ci_eqs ''Fallback'' w2"
    by (auto dest!: ci_eqs_length)
  with assms show ?thesis
    unfolding normalize_blocks_def rewrite_one_def
    by (simp del: ci_eqs_simps add: fresh_words)
qed

lemma wf_one: "W \<noteq> [] \<Longrightarrow> list_all is_word W \<Longrightarrow> ci_eqs W w \<Longrightarrow> wf_blocks [(w, [])]"
  using ci_eqs_word [of W w] by (auto dest: ci_eqs_length)

lemma wf_two:
  assumes "W1 \<noteq> []" "list_all is_word W1" "ci_eqs W1 w1" "sp \<noteq> []" "list_all is_space sp"
    "W2 \<noteq> []" "list_all is_word W2" "ci_eqs W2 w2"
  shows "wf_blocks [(w1, sp), (w2, [])]"
proof -
  from assms(5) have "list_all (\<lambda>c. \<not> is_word c) sp"
    by (auto simp: list_all_iff dest: space_not_word)
  with assms ci_eqs_word [of W1 w1] ci_eqs_word [of W2 w2] show ?thesis
    by (auto dest: ci_eqs_length)
qed

section \<open>Facts about the service\<close>

lemma svc_svc_transcribe: "svc (snd (svc_transcribe cfg cap p l w)) = svc w"
  by (simp add: svc_transcribe_def Let_def split: sum.splits prod.splits)

lemma svc_transcribe_body: "svc (snd (transcribe_body cfg cap p l t0 t1 w)) = svc w"
proof -
  obtain r w1 where e: "svc_transcribe cfg cap p (Some l) w = (r, w1)" by fastforce
  with svc_svc_transcribe [of cfg cap p "Some l" w] have "svc w1 = svc w" by simp
  then show ?thesis
    by (simp add: transcribe_body_def Let_def e split: sum.splits)
qed

lemma svc_transcribe_handler: "svc (snd (transcribe ev cfg cap f c l t0 t1 w)) = svc w"
proof -
  let ?p = "mkstemp ev (files w) (tmp_suffix ev f)"
  obtain r w2 where e: "transcribe_body cfg cap ?p l t0 t1 (write_file ?p c w) = (r, w2)"
    by fastforce
  with svc_transcribe_body [of cfg cap ?p l t0 t1 "write_file ?p c w"]
  have "svc w2 = svc w" by (simp add: write_file_def)
  then show ?thesis
    by (simp add: transcribe_def Let_def e unlink_missing_ok_def)
qed

lemma svc_warmup:
  "svc (snd (warmup ev cfg cap w)) =
     (if fst (warmup ev cfg cap w) = Inr () then (svc w)\<lparr>warmed := True\<rparr> else svc w)"
proof -
  let ?p = "mkstemp ev (files w) ''.wav''"
  let ?w2 = "write_file ?p (wave_file ev 1 2 16000
      (concat (replicate (nat (py_int (real 16000 * WARMUP_SECONDS cfg))) [CHR 0x00, CHR 0x00])))
      (write_file ?p [] w)"
  obtain r w3 where e: "svc_transcribe cfg cap ?p (Some ''auto'') ?w2 = (r, w3)" by fastforce
  with svc_svc_transcribe [of cfg cap ?p "Some ''auto''" ?w2] have "svc w3 = svc w"
    by (simp add: write_file_def)
  with e show ?thesis
    by (simp add: warmup_def Let_def unlink_missing_ok_def split: sum.splits)
qed

lemma handle_keeps_warmed: "warmed (svc w) \<Longrightarrow> warmed (svc (handle ev cfg cap req w))"
  by (cases req) (simp_all add: handle_def startup_event_def svc_warmup svc_transcribe_handler)

lemma run_keeps_warmed: "warmed (svc w) \<Longrightarrow> list_all (\<lambda>v. warmed (svc v)) (run ev cfg cap reqs w)"
  by (induction reqs arbitrary: w) (simp_all add: handle_keeps_warmed)

lemma flips_all_true: "list_all (\<lambda>b. b) bs \<Longrightarrow> flips bs = 0"
  by (induction bs rule: flips.induct) simp_all

lemma run_Cons: "\<exists>ws. run ev cfg cap reqs w = w # ws"
  by (cases reqs) simp_all

lemma flips_run: "flips (map (\<lambda>v. warmed (svc v)) (run ev cfg cap reqs w)) \<le> 1"
proof (induction reqs arbitrary: w)
  case Nil
  then show ?case by simp
next
  case (Cons req reqs)
  let ?w' = "handle ev cfg cap req w"
  obtain ws where ws: "run ev cfg cap reqs ?w' = ?w' # ws"
    using run_Cons by blast
  show ?case
  proof (cases "warmed (svc ?w')")
    case True
    from run_keeps_warmed [OF True, of ev cfg cap reqs]
    have "flips (map (\<lambda>v. warmed (svc v)) (run ev cfg cap reqs ?w')) = 0"
      by (intro flips_all_true) (simp add: list_all_iff)
    then show ?thesis by (simp add: ws)
  next
    case False
    with handle_keeps_warmed [of w ev cfg cap req] have "\<not> warmed (svc w)" by blast
    with False Cons.IH [of ?w'] show ?thesis by (simp add: ws)
  qed
qed





lemma language_arg_invalid:
  "lang \<notin> {None, Some [], Some ''auto'', Some ''zh'', Some ''en''} \<Longrightarrow>
     language_arg lang = Inl (HTTPException 400 ''language must be one of: auto|zh|en'')"
  by (simp add: language_arg_def)

lemma svc_transcribe_invalid:
  "lang \<notin> {None, Some [], Some ''auto'', Some ''zh'', Some ''en''} \<Longrightarrow>
     svc_transcribe cfg cap path lang w =
       (Inl (HTTPException 400 ''language must be one of: auto|zh|en''), w)"
  by (simp add: svc_transcribe_def language_arg_invalid)



lemma transcribe_unfold:
  assumes "svc_transcribe cfg cap (mkstemp ev (files w) (tmp_suffix ev filename)) (Some lang)
             (write_file (mkstemp ev (files w) (tmp_suffix ev filename)) content w) = (r, w2)"
  shows "fst (transcribe ev cfg cap filename content lang t0 t1 w) =
     (case r of
        Inl e \<Rightarrow> Inl e
      | Inr result \<Rightarrow>
          (case bind (value_strip (py_or (dict_get result ''text'') (PyStr []))) normalize_terms of
             Inl e \<Rightarrow> Inl e
           | Inr text \<Rightarrow>
               Inr (map_of
                  [(''text'', PyStr text),
                   (''language'', dict_get result ''language''),
                   (''requested_language'', PyStr lang),
                   (''elapsed_ms'', PyNum (py_round ((t1 - t0) * 1000) 2)),
                   (''segments'', dict_get_default result ''segments'' (PyList [])),
                   (''model'', PyStr (model (svc w2)))])))"
    and "snd (transcribe ev cfg cap filename content lang t0 t1 w) =
           unlink_missing_ok (mkstemp ev (files w) (tmp_suffix ev filename)) w2"
  using assms
  by (simp_all add: transcribe_def transcribe_body_def Let_def split: sum.splits)

lemma warmup_raises:
  assumes "cap ((files w)(mkstemp ev (files w) ''.wav'' \<mapsto>
             wave_file ev 1 2 16000
               (concat (replicate (nat (py_int (16000 * WARMUP_SECONDS cfg))) [CHR 0x00, CHR 0x00]))))
           \<lparr>audio_path = mkstemp ev (files w) ''.wav'', path_or_hf_repo = model (svc w),
              language = None, word_timestamps = False, initial_prompt = INITIAL_PROMPT cfg\<rparr>
         = (Inl e, fs)"
  shows "fst (warmup ev cfg cap w) = Inl e"
    and "svc (snd (warmup ev cfg cap w)) = svc w"
    and "files (snd (warmup ev cfg cap w)) (mkstemp ev (files w) ''.wav'') = None"
  using assms
  by (simp_all add: warmup_def svc_transcribe_def language_arg_def write_file_def
      unlink_missing_ok_def Let_def)





section \<open>The claims about the normalizer\<close>


text \<open>
  C9. The compound-term rules: \<open>Open claw\<close> becomes \<open>OpenClaw\<close>, and every case variant of
  \<open>SubsiderAgent\<close>, and of \<open>Subsider Agent\<close> with any run of whitespace between the two
  words, becomes \<open>subagent\<close>; likewise every case variant of \<open>Open claw\<close> becomes \<open>OpenClaw\<close>.
\<close>

theorem compound_terms:
  "normalize_terms ''Open claw'' = Inr ''OpenClaw''
   \<and> (\<forall>w. ci_eqs ''SubsiderAgent'' w \<longrightarrow> normalize_terms w = Inr ''subagent'')
   \<and> (\<forall>w1 sp w2. ci_eqs ''Subsider'' w1 \<longrightarrow> sp \<noteq> [] \<longrightarrow> list_all is_space sp \<longrightarrow> ci_eqs ''Agent'' w2
        \<longrightarrow> normalize_terms (w1 @ sp @ w2) = Inr ''subagent'')
   \<and> (\<forall>w1 sp w2. ci_eqs ''Open'' w1 \<longrightarrow> sp \<noteq> [] \<longrightarrow> list_all is_space sp \<longrightarrow> ci_eqs ''claw'' w2
        \<longrightarrow> normalize_terms (w1 @ sp @ w2) = Inr ''OpenClaw'')"
proof (intro conjI allI impI)
  show "normalize_terms ''Open claw'' = Inr ''OpenClaw''" by code_simp
next
  fix w assume m: "ci_eqs ''SubsiderAgent'' w"
  have "wf_blocks [(w, [])]" by (rule wf_one [OF _ pattern_words(1) m]) simp
  from normalize_whole_text [OF this] show "normalize_terms w = Inr ''subagent''"
    by (simp add: normalize_blocks_subsideragent [OF m])
next
  fix w1 sp w2
  assume m: "ci_eqs ''Subsider'' w1" "sp \<noteq> []" "list_all is_space sp" "ci_eqs ''Agent'' w2"
  have "wf_blocks [(w1, sp), (w2, [])]"
    by (rule wf_two [OF _ pattern_words(2) m(1,2,3) _ pattern_words(3) m(4)]) simp_all
  from normalize_whole_text [OF this] show "normalize_terms (w1 @ sp @ w2) = Inr ''subagent''"
    by (simp add: normalize_blocks_subsider_agent [OF m(1,3,4)])
next
  fix w1 sp w2
  assume m: "ci_eqs ''Open'' w1" "sp \<noteq> []" "list_all is_space sp" "ci_eqs ''claw'' w2"
  have "wf_blocks [(w1, sp), (w2, [])]"
    by (rule wf_two [OF _ pattern_words(6) m(1,2,3) _ pattern_words(7) m(4)]) simp_all
  from normalize_whole_text [OF this] show "normalize_terms (w1 @ sp @ w2) = Inr ''OpenClaw''"
    by (simp add: normalize_blocks_open_claw [OF m(1,3,4)])
qed

theorem compound_terms_witness:
  "ci_eqs ''SubsiderAgent'' ''SUBSIDERagent'' \<and> normalize_terms ''SUBSIDERagent'' = Inr ''subagent''
   \<and> ci_eqs ''Subsider'' ''subSIDER'' \<and> list_all is_space [CHR '' '', CHR 0x09] \<and> ci_eqs ''Agent'' ''AGENT''
   \<and> normalize_terms (''subSIDER'' @ [CHR '' '', CHR 0x09] @ ''AGENT'') = Inr ''subagent''
   \<and> ci_eqs ''Open'' ''OPEN'' \<and> ci_eqs ''claw'' ''Claw''
   \<and> normalize_terms (''OPEN'' @ [CHR '' '', CHR 0x09] @ ''Claw'') = Inr ''OpenClaw''"
proof -
  have h1: "ci_eqs ''SubsiderAgent'' ''SUBSIDERagent''" by code_simp
  have h2: "ci_eqs ''Subsider'' ''subSIDER''" by code_simp
  have h3: "[CHR '' '', CHR 0x09] \<noteq> []" by simp
  have h4: "list_all is_space [CHR '' '', CHR 0x09]" by code_simp
  have h5: "ci_eqs ''Agent'' ''AGENT''" by code_simp
  have h6: "ci_eqs ''Open'' ''OPEN''" by code_simp
  have h7: "ci_eqs ''claw'' ''Claw''" by code_simp
  note T = compound_terms
  note a = T [THEN conjunct2, THEN conjunct1, rule_format, OF h1]
  note b = T [THEN conjunct2, THEN conjunct2, THEN conjunct1, rule_format, OF h2 h3 h4 h5]
  note c = T [THEN conjunct2, THEN conjunct2, THEN conjunct2, rule_format, OF h6 h3 h4 h7]
  from h1 a h2 h4 h5 b h6 h7 c show ?thesis by (intro conjI)
qed

text \<open>
  C4. The abbreviation rule leaves longer words alone: \<open>CLASS CLAUDE\<close> is unchanged (also
  next to standalone abbreviations), and for every word of four or more word characters,
  whatever precedes it, the rule \<open>\bCLA\b\<close> does not match at the word and the
  substitution copies the word unchanged.
\<close>

theorem abbreviation_skips_longer_words:
  "normalize_terms ''CLASS CLAUDE'' = Inr ''CLASS CLAUDE''
   \<and> normalize_terms ''CLASS CLAUDE CLA cla Cla cLa'' = Inr ''CLASS CLAUDE CLI cli Cli CLI''
   \<and> (\<forall>prev w rest. list_all is_word w \<longrightarrow> 4 \<le> length w \<longrightarrow> \<not> next_word rest \<longrightarrow>
        rmatch pat_cla prev (w @ rest) = None
        \<and> sub_from pat_cla case_aware_cli prev (w @ rest) =
            (case sub_from pat_cla case_aware_cli (Some (last w)) rest of
               Inl e \<Rightarrow> Inl e | Inr out \<Rightarrow> Inr (w @ out)))"
proof (intro conjI allI impI)
  show "normalize_terms ''CLASS CLAUDE'' = Inr ''CLASS CLAUDE''" by code_simp
  show "normalize_terms ''CLASS CLAUDE CLA cla Cla cLa'' = Inr ''CLASS CLAUDE CLI cli Cli CLI''"
    by code_simp
next
  fix prev w rest
  assume w: "list_all is_word w" "4 \<le> length w" and r: "\<not> next_word rest"
  from w(2) have n: "\<not> ci_eqs ''CLA'' w" "w \<noteq> []" by (auto dest: ci_eqs_length)
  show "rmatch pat_cla prev (w @ rest) = None"
    unfolding pat_cla_def
    by (rule sub_one_word_skip(1) [OF _ pattern_words(4) w(1) n r]) simp
  show "sub_from pat_cla case_aware_cli prev (w @ rest) =
            (case sub_from pat_cla case_aware_cli (Some (last w)) rest of
               Inl e \<Rightarrow> Inl e | Inr out \<Rightarrow> Inr (w @ out))"
    unfolding pat_cla_def
    by (rule sub_one_word_skip(2) [OF _ pattern_words(4) w(1) n r]) simp
qed

theorem abbreviation_skips_longer_words_witness:
  "list_all is_word ''CLAUDE'' \<and> 4 \<le> length ''CLAUDE'' \<and> \<not> next_word '' CLA''
   \<and> rmatch pat_cla None (''CLAUDE'' @ '' CLA'') = None
   \<and> sub_from pat_cla case_aware_cli None (''CLAUDE'' @ '' CLA'') = Inr ''CLAUDE CLI''"
proof -
  have h1: "list_all is_word ''CLAUDE''" by code_simp
  have h2: "4 \<le> length ''CLAUDE''" by simp
  have h3: "\<not> next_word '' CLA''" by code_simp
  note T = abbreviation_skips_longer_words [THEN conjunct2, THEN conjunct2, rule_format, OF h1 h2 h3, of None]
  have e: "sub_from pat_cla case_aware_cli (Some (last ''CLAUDE'')) '' CLA'' = Inr '' CLI''"
    by code_simp
  have "sub_from pat_cla case_aware_cli None (''CLAUDE'' @ '' CLA'') = Inr ''CLAUDE CLI''"
    unfolding T [THEN conjunct2] e by simp
  with h1 h2 h3 T [THEN conjunct1] show ?thesis by (intro conjI)
qed

text \<open>
  C5. The abbreviation rule rewrites a standalone match by its case: \<open>CLA\<close> gives \<open>CLI\<close>,
  \<open>cla\<close> gives \<open>cli\<close>, \<open>Cla\<close> gives \<open>Cli\<close>, and every other casing, such as \<open>cLa\<close>, gives
  \<open>CLI\<close>. In any text, a case variant of \<open>CLA\<close> that stands between non-word characters
  (or the ends of the text) is replaced according to that table.
\<close>

theorem abbreviation_case_table:
  "normalize_terms ''CLA'' = Inr ''CLI'' \<and> normalize_terms ''cla'' = Inr ''cli''
   \<and> normalize_terms ''Cla'' = Inr ''Cli'' \<and> normalize_terms ''cLa'' = Inr ''CLI''
   \<and> (\<forall>prev tok rest. ci_eqs ''CLA'' tok \<longrightarrow> \<not> prev_word prev \<longrightarrow> \<not> next_word rest \<longrightarrow>
        sub_from pat_cla case_aware_cli prev (tok @ rest) =
          (case sub_from pat_cla case_aware_cli (Some (last tok)) rest of
             Inl e \<Rightarrow> Inl e
           | Inr out \<Rightarrow>
               Inr ((if tok = ''CLA'' then ''CLI'' else if tok = ''cla'' then ''cli''
                     else if tok = ''Cla'' then ''Cli'' else ''CLI'') @ out)))"
proof (intro conjI allI impI)
  show "normalize_terms ''CLA'' = Inr ''CLI''" by code_simp
  show "normalize_terms ''cla'' = Inr ''cli''" by code_simp
  show "normalize_terms ''Cla'' = Inr ''Cli''" by code_simp
  show "normalize_terms ''cLa'' = Inr ''CLI''" by code_simp
next
  fix prev tok rest
  assume m: "ci_eqs ''CLA'' tok" and ctx: "\<not> prev_word prev" "\<not> next_word rest"
  have "sub_from pat_cla case_aware_cli prev (tok @ rest) =
     (case case_aware_cli tok of
        Inl e \<Rightarrow> Inl e
      | Inr r \<Rightarrow> (case sub_from pat_cla case_aware_cli (Some (last tok)) rest of
                    Inl e \<Rightarrow> Inl e | Inr out \<Rightarrow> Inr (r @ out)))"
    unfolding pat_cla_def
    by (rule sub_one_word_match [OF _ pattern_words(4) m ctx]) simp
  then show "sub_from pat_cla case_aware_cli prev (tok @ rest) =
          (case sub_from pat_cla case_aware_cli (Some (last tok)) rest of
             Inl e \<Rightarrow> Inl e
           | Inr out \<Rightarrow>
               Inr ((if tok = ''CLA'' then ''CLI'' else if tok = ''cla'' then ''cli''
                     else if tok = ''Cla'' then ''Cli'' else ''CLI'') @ out))"
    by (simp only: case_aware_cli_table [OF m] sum.case)
qed

theorem abbreviation_case_table_witness:
  "ci_eqs ''CLA'' ''cLa'' \<and> \<not> prev_word (Some CHR '' '') \<and> \<not> next_word ''.''
   \<and> sub_from pat_cla case_aware_cli (Some CHR '' '') (''cLa'' @ ''.'') = Inr ''CLI.''"
proof -
  have h1: "ci_eqs ''CLA'' ''cLa''" by code_simp
  have h2: "\<not> prev_word (Some CHR '' '')" by code_simp
  have h3: "\<not> next_word ''.''" by code_simp
  note T = abbreviation_case_table [THEN conjunct2, THEN conjunct2, THEN conjunct2, THEN conjunct2,
      rule_format, OF h1 h2 h3]
  have e: "sub_from pat_cla case_aware_cli (Some (last ''cLa'')) ''.'' = Inr ''.''"
    by code_simp
  have "sub_from pat_cla case_aware_cli (Some CHR '' '') (''cLa'' @ ''.'') = Inr ''CLI.''"
    unfolding T e by simp
  with h1 h2 h3 show ?thesis by (intro conjI)
qed

section \<open>The claims about the service\<close>

text \<open>
  C2 (as the code has it). When the transcription call inside \<open>warmup\<close> raises, \<open>warmup\<close>
  and the startup handler raise the same exception: nothing catches it. The warmed flag
  and the rest of the service state are unchanged, the temporary file is removed, and
  \<open>/health\<close> on the resulting state reports \<open>warmed: false\<close> if the flag was false.
\<close>

theorem warmup_failure_propagates:
  assumes "cap ((files w)(mkstemp ev (files w) ''.wav'' \<mapsto>
             wave_file ev 1 2 16000
               (concat (replicate (nat (py_int (16000 * WARMUP_SECONDS cfg))) [CHR 0x00, CHR 0x00]))))
           \<lparr>audio_path = mkstemp ev (files w) ''.wav'', path_or_hf_repo = model (svc w),
              language = None, word_timestamps = False, initial_prompt = INITIAL_PROMPT cfg\<rparr>
         = (Inl e, fs)"
  shows "fst (startup_event ev cfg cap w) = Inl e
     \<and> svc (snd (startup_event ev cfg cap w)) = svc w
     \<and> files (snd (startup_event ev cfg cap w)) (mkstemp ev (files w) ''.wav'') = None
     \<and> (\<not> warmed (svc w) \<longrightarrow>
          health now (snd (startup_event ev cfg cap w)) ''warmed'' = Some (PyBool False))"
  using warmup_raises [where cap = cap and w = w and ev = ev and cfg = cfg, OF assms]
  by (simp add: startup_event_def health_def)

theorem warmup_failure_propagates_witness:
  "fst (startup_event example_env default_config failing_cap example_world)
       = Inl (CapabilityError ''model load failed'')
   \<and> \<not> warmed (svc example_world)
   \<and> health 101 (snd (startup_event example_env default_config failing_cap example_world)) ''warmed''
       = Some (PyBool False)"
proof -
  have h: "failing_cap ((files example_world)(mkstemp example_env (files example_world) ''.wav'' \<mapsto>
             wave_file example_env 1 2 16000
               (concat (replicate (nat (py_int (16000 * WARMUP_SECONDS default_config))) [CHR 0x00, CHR 0x00]))))
           \<lparr>audio_path = mkstemp example_env (files example_world) ''.wav'',
              path_or_hf_repo = model (svc example_world),
              language = None, word_timestamps = False, initial_prompt = INITIAL_PROMPT default_config\<rparr>
         = (Inl (CapabilityError ''model load failed''),
            (files example_world)(mkstemp example_env (files example_world) ''.wav'' \<mapsto>
             wave_file example_env 1 2 16000
               (concat (replicate (nat (py_int (16000 * WARMUP_SECONDS default_config))) [CHR 0x00, CHR 0x00]))))"
    unfolding failing_cap_def by (rule refl)
  have n: "\<not> warmed (svc example_world)"
    by (simp add: example_world_def service_init_def)
  note T = warmup_failure_propagates [where cap = failing_cap and w = example_world
      and ev = example_env and cfg = default_config and now = 101, OF h]
  from T [THEN conjunct1] n T [THEN conjunct2, THEN conjunct2, THEN conjunct2, rule_format, OF n]
  show ?thesis by (intro conjI)
qed

text \<open>
  With the default configuration and a capability that raises, the startup handler does
  not return: it raises the capability's exception.
\<close>

theorem warmup_failure_counterexample:
  "fst (startup_event example_env default_config failing_cap example_world)
     = Inl (CapabilityError ''model load failed'')
   \<and> fst (startup_event example_env default_config failing_cap example_world) \<noteq> Inr ()"
proof -
  have "fst (warmup example_env default_config failing_cap example_world)
      = Inl (CapabilityError ''model load failed'')"
    by (rule warmup_raises(1) [where cap = failing_cap and w = example_world
          and ev = example_env and cfg = default_config]) (simp add: failing_cap_def)
  then show ?thesis by (simp add: startup_event_def)
qed


text \<open>
  C6. \<open>_language_arg\<close> maps \<open>None\<close>, the empty string and \<open>auto\<close> to \<open>None\<close> (auto-detect),
  passes \<open>zh\<close> and \<open>en\<close> through, and for every other value raises
  \<open>HTTPException(400, "language must be one of: auto|zh|en")\<close>. Then \<open>_transcribe\<close> raises
  it with the state unchanged, and the handler raises it without any call of the
  capability.
\<close>

theorem language_validation:
  "language_arg None = Inr None \<and> language_arg (Some []) = Inr None
   \<and> language_arg (Some ''auto'') = Inr None
   \<and> language_arg (Some ''zh'') = Inr (Some ''zh'') \<and> language_arg (Some ''en'') = Inr (Some ''en'')
   \<and> (\<forall>lang. lang \<notin> {None, Some [], Some ''auto'', Some ''zh'', Some ''en''} \<longrightarrow>
         language_arg lang = Inl (HTTPException 400 ''language must be one of: auto|zh|en'')
         \<and> svc_transcribe cfg cap path lang w
             = (Inl (HTTPException 400 ''language must be one of: auto|zh|en''), w))
   \<and> (\<forall>lang. lang \<notin> {[], ''auto'', ''zh'', ''en''} \<longrightarrow>
         fst (transcribe ev cfg cap filename content lang t0 t1 w)
             = Inl (HTTPException 400 ''language must be one of: auto|zh|en'')
         \<and> calls (snd (transcribe ev cfg cap filename content lang t0 t1 w)) = calls w)"
proof (intro conjI allI impI)
  fix lang :: "string option"
  assume "lang \<notin> {None, Some [], Some ''auto'', Some ''zh'', Some ''en''}"
  then show "language_arg lang = Inl (HTTPException 400 ''language must be one of: auto|zh|en'')"
    and "svc_transcribe cfg cap path lang w
             = (Inl (HTTPException 400 ''language must be one of: auto|zh|en''), w)"
    by (rule language_arg_invalid, rule svc_transcribe_invalid)
next
  fix lang :: string
  let ?p = "mkstemp ev (files w) (tmp_suffix ev filename)"
  assume "lang \<notin> {[], ''auto'', ''zh'', ''en''}"
  then have "Some lang \<notin> {None, Some [], Some ''auto'', Some ''zh'', Some ''en''}" by simp
  from svc_transcribe_invalid [OF this, of cfg cap ?p "write_file ?p content w"]
  have e: "svc_transcribe cfg cap ?p (Some lang) (write_file ?p content w)
             = (Inl (HTTPException 400 ''language must be one of: auto|zh|en''), write_file ?p content w)" .
  show "fst (transcribe ev cfg cap filename content lang t0 t1 w)
             = Inl (HTTPException 400 ''language must be one of: auto|zh|en'')"
    by (simp add: transcribe_unfold(1) [OF e])
  show "calls (snd (transcribe ev cfg cap filename content lang t0 t1 w)) = calls w"
    by (simp add: transcribe_unfold(2) [OF e] unlink_missing_ok_def write_file_def)
qed (simp_all add: language_arg_def)

theorem language_validation_witness:
  "Some ''fr'' \<notin> {None, Some [], Some ''auto'', Some ''zh'', Some ''en''}
   \<and> language_arg (Some ''fr'') = Inl (HTTPException 400 ''language must be one of: auto|zh|en'')
   \<and> svc_transcribe default_config example_cap ''/tmp/a.wav'' (Some ''fr'') example_world
       = (Inl (HTTPException 400 ''language must be one of: auto|zh|en''), example_world)
   \<and> ''fr'' \<notin> {[], ''auto'', ''zh'', ''en''}
   \<and> fst (transcribe example_env default_config example_cap (Some ''clip.mp3'') ''RIFF'' ''fr'' 1 2 example_world)
       = Inl (HTTPException 400 ''language must be one of: auto|zh|en'')
   \<and> calls (snd (transcribe example_env default_config example_cap (Some ''clip.mp3'') ''RIFF'' ''fr'' 1 2 example_world))
       = calls example_world"
proof -
  have h1: "Some ''fr'' \<notin> {None, Some [], Some ''auto'', Some ''zh'', Some ''en''}" by simp
  have h2: "''fr'' \<notin> {[], ''auto'', ''zh'', ''en''}" by simp
  note T = language_validation [of default_config example_cap "''/tmp/a.wav''" example_world
      example_env "Some ''clip.mp3''" "''RIFF''" 1 2]
  note a = T [THEN conjunct2, THEN conjunct2, THEN conjunct2, THEN conjunct2, THEN conjunct2,
      THEN conjunct1, rule_format, OF h1]
  note b = T [THEN conjunct2, THEN conjunct2, THEN conjunct2, THEN conjunct2, THEN conjunct2,
      THEN conjunct2, rule_format, OF h2]
  from h1 a [THEN conjunct1] a [THEN conjunct2] h2 b [THEN conjunct1] b [THEN conjunct2]
  show ?thesis by (intro conjI)
qed

text \<open>
  C8. The warmed flag is false after construction; along any sequence of startup, health
  and transcribe requests it changes at most once and, once true, stays true; \<open>warmup\<close>
  sets it to true exactly when it returns normally and changes nothing else of the
  service; health reporting, the transcribe handler and \<open>_transcribe\<close> leave the service
  unchanged.
\<close>

theorem warmed_flag_lifecycle:
  "\<not> warmed (service_init m now)
   \<and> flips (map (\<lambda>v. warmed (svc v)) (run ev cfg cap reqs w)) \<le> 1
   \<and> (warmed (svc w) \<longrightarrow> list_all (\<lambda>v. warmed (svc v)) (run ev cfg cap reqs w))
   \<and> svc (snd (warmup ev cfg cap w))
       = (if fst (warmup ev cfg cap w) = Inr () then (svc w)\<lparr>warmed := True\<rparr> else svc w)
   \<and> svc (handle ev cfg cap (GetHealth t) w) = svc w
   \<and> svc (snd (transcribe ev cfg cap filename content lang t0 t1 w)) = svc w
   \<and> svc (snd (svc_transcribe cfg cap path l w)) = svc w"
proof (intro conjI impI)
  show "\<not> warmed (service_init m now)" by (simp add: service_init_def)
  show "flips (map (\<lambda>v. warmed (svc v)) (run ev cfg cap reqs w)) \<le> 1" by (rule flips_run)
  show "svc (snd (warmup ev cfg cap w))
       = (if fst (warmup ev cfg cap w) = Inr () then (svc w)\<lparr>warmed := True\<rparr> else svc w)"
    by (rule svc_warmup)
  show "svc (handle ev cfg cap (GetHealth t) w) = svc w" by (simp add: handle_def)
  show "svc (snd (transcribe ev cfg cap filename content lang t0 t1 w)) = svc w"
    by (rule svc_transcribe_handler)
  show "svc (snd (svc_transcribe cfg cap path l w)) = svc w" by (rule svc_svc_transcribe)
next
  assume "warmed (svc w)"
  then show "list_all (\<lambda>v. warmed (svc v)) (run ev cfg cap reqs w)" by (rule run_keeps_warmed)
qed

theorem warmed_flag_lifecycle_witness:
  "warmed (svc warmed_world)
   \<and> list_all (\<lambda>v. warmed (svc v))
       (run example_env default_config failing_cap
          [Startup, GetHealth 101, PostTranscribe None ''RIFF'' ''en'' 1 2] warmed_world)"
proof -
  have h: "warmed (svc warmed_world)" by (simp add: warmed_world_def)
  note T = warmed_flag_lifecycle [of _ _ example_env default_config failing_cap
      "[Startup, GetHealth 101, PostTranscribe None ''RIFF'' ''en'' 1 2]" warmed_world]
  from h T [THEN conjunct2, THEN conjunct2, THEN conjunct1, rule_format, OF h] show ?thesis
    by (rule conjI)
qed





end
